theory Spec2Isabelle
  imports Complex_Main "HOL-Library.Word"
begin

section \<open>Region growing: the fixed-threshold program (reg\_grow.cpp)\<close>

text \<open>
  The C-style program keeps a stack of pixel coordinates in two malloc'ed int arrays and a
  label map \<open>passedBy\<close> in a calloc'ed array of doubles indexed by \<open>x * w + y\<close>.
  The arrays are lists here; the cells \<open>malloc\<close> and \<open>realloc\<close> leave uninitialised are
  modelled as 0 (the program never reads a cell of the stack before it has written it).
  C \<open>int\<close>s are unbounded integers: the sizes, counters and indices of the program are
  bounded by the number of pixels. The labels stored in \<open>passedBy\<close> are the integer values of
  \<open>currentRegion\<close>, held exactly by a double, so they are integers. The threshold, and the
  Euclidean distance it is compared with, are real numbers.
\<close>

subsection \<open>The stack of pixel coordinates\<close>

record Stack =
  stack_x :: "int list"
  stack_y :: "int list"
  stack_size :: int
  stack_capacity :: int

definition malloc :: "int \<Rightarrow> int list" where
  "malloc n = replicate (nat n) 0"

definition realloc :: "int list \<Rightarrow> int \<Rightarrow> int list" where
  "realloc a n = take (nat n) a @ replicate (nat n - length a) 0"

definition initStack :: "int \<Rightarrow> Stack" where
  "initStack capacity =
     \<lparr>stack_x = malloc capacity, stack_y = malloc capacity,
      stack_size = 0, stack_capacity = capacity\<rparr>"

definition push :: "Stack \<Rightarrow> int \<Rightarrow> int \<Rightarrow> Stack" where
  "push s x_coord y_coord =
     (let s1 = (if stack_size s = stack_capacity s
                then s\<lparr>stack_capacity := stack_capacity s * 2,
                       stack_x := realloc (stack_x s) (stack_capacity s * 2),
                       stack_y := realloc (stack_y s) (stack_capacity s * 2)\<rparr>
                else s)
      in s1\<lparr>stack_x := (stack_x s1)[nat (stack_size s1) := x_coord],
             stack_y := (stack_y s1)[nat (stack_size s1) := y_coord],
             stack_size := stack_size s1 + 1\<rparr>)"

text \<open>
  \<open>pop\<close> writes the popped coordinate through two pointers. Its second argument is the
  value the two pointed-to variables hold before the call, its second result the value
  they hold after it. On an empty stack the C function only prints a message to stderr.
\<close>

definition pop :: "Stack \<Rightarrow> int \<times> int \<Rightarrow> Stack \<times> (int \<times> int)" where
  "pop s out =
     (if stack_size s > 0
      then (let s1 = s\<lparr>stack_size := stack_size s - 1\<rparr>
            in (s1, (stack_x s1 ! nat (stack_size s1), stack_y s1 ! nat (stack_size s1))))
      else (s, out))"

definition isEmpty :: "Stack \<Rightarrow> bool" where
  "isEmpty s = (stack_size s = 0)"

subsection \<open>The image and the region-growing state\<close>

type_synonym Vec3b = "8 word \<times> 8 word \<times> 8 word"

text \<open>
  A \<open>cv::Mat\<close> is its numbers of rows and columns and its elements, row after row;
  \<open>m.at(i, j)\<close> is the element of row \<open>i\<close> and column \<open>j\<close>.
\<close>

record 'a Mat =
  mat_rows :: int
  mat_cols :: int
  mat_data :: "'a list"

definition mat_at :: "'a Mat \<Rightarrow> int \<Rightarrow> int \<Rightarrow> 'a" where
  "mat_at m i j = mat_data m ! nat (i * mat_cols m + j)"

definition mat_set :: "'a Mat \<Rightarrow> int \<Rightarrow> int \<Rightarrow> 'a \<Rightarrow> 'a Mat" where
  "mat_set m i j v = m\<lparr>mat_data := (mat_data m)[nat (i * mat_cols m + j) := v]\<rparr>"

definition zeros :: "int \<Rightarrow> int \<Rightarrow> int Mat" where
  "zeros r c = \<lparr>mat_rows = r, mat_cols = c, mat_data = replicate (nat (r * c)) 0\<rparr>"

text \<open>
  \<open>rg_touched\<close> is not a field of the C struct. It is a history variable: the list, most
  recent first, of every coordinate (row, column) at which the program reads or writes
  the image or the label map. The output image \<open>SEGS\<close>, which only the final colouring
  writes, is left out.
\<close>

record RegionGrow =
  rg_im :: "Vec3b Mat"
  rg_h :: int
  rg_w :: int
  rg_passedBy :: "int list"
  rg_currentRegion :: int
  rg_iterations :: int
  rg_stack :: Stack
  rg_thresh :: real
  rg_touched :: "(int \<times> int) list"

definition initRegionGrow :: "Vec3b Mat \<Rightarrow> real \<Rightarrow> RegionGrow" where
  "initRegionGrow img th =
     \<lparr>rg_im = img, rg_h = mat_rows img, rg_w = mat_cols img,
      rg_passedBy = replicate (nat (mat_rows img * mat_cols img)) 0,
      rg_currentRegion = 0, rg_iterations = 0,
      rg_stack = initStack 1000, rg_thresh = th, rg_touched = []\<rparr>"

definition boundaries :: "RegionGrow \<Rightarrow> int \<Rightarrow> int \<Rightarrow> bool" where
  "boundaries rg x y = (x \<ge> 0 \<and> x < rg_h rg \<and> y \<ge> 0 \<and> y < rg_w rg)"

definition sq_dist :: "Vec3b \<Rightarrow> Vec3b \<Rightarrow> int" where
  "sq_dist a b =
     (case a of (a0, a1, a2) \<Rightarrow> case b of (b0, b1, b2) \<Rightarrow>
        (uint a0 - uint b0)\<^sup>2 + (uint a1 - uint b1)\<^sup>2 + (uint a2 - uint b2)\<^sup>2)"

definition distance :: "Vec3b \<Rightarrow> Vec3b \<Rightarrow> real" where
  "distance a b = sqrt (real_of_int (sq_dist a b))"

definition idx :: "RegionGrow \<Rightarrow> int \<Rightarrow> int \<Rightarrow> nat" where
  "idx rg x y = nat (x * rg_w rg + y)"

definition touch :: "int \<Rightarrow> int \<Rightarrow> RegionGrow \<Rightarrow> RegionGrow" where
  "touch x y rg = rg\<lparr>rg_touched := (x, y) # rg_touched rg\<rparr>"

subsection \<open>Growing one region\<close>

definition offsets :: "(int \<times> int) list" where
  "offsets = concat (map (\<lambda>i. map (\<lambda>j. (i, j)) [-1, 0, 1]) [-1, 0, 1])"

text \<open>
  The body of the two nested loops over \<open>i\<close> and \<open>j\<close>, for the popped pixel \<open>(x, y)\<close>:
  the centre is skipped, the neighbour is tested with \<open>boundaries\<close> before \<open>passedBy\<close> is
  read (\<open>&&\<close> evaluates its right operand only when the left one holds), and it is labelled
  and pushed when its distance to the popped pixel is below \<open>var\<close>.
\<close>

definition visit :: "real \<Rightarrow> int \<Rightarrow> int \<Rightarrow> int \<Rightarrow> RegionGrow \<Rightarrow> int \<times> int \<Rightarrow> RegionGrow" where
  "visit var regionNum x y rg ij =
     (case ij of (i, j) \<Rightarrow>
        if i = 0 \<and> j = 0 then rg
        else
          let nx = x + i; ny = y + j in
          if \<not> boundaries rg nx ny then rg
          else
            let rg1 = touch nx ny rg in
            if rg_passedBy rg1 ! idx rg1 nx ny \<noteq> 0 then rg1
            else
              let rg2 = touch nx ny (touch x y rg1) in
              if distance (mat_at (rg_im rg2) x y) (mat_at (rg_im rg2) nx ny) < var
              then
                let rg3 = touch nx ny rg2 in
                rg3\<lparr>rg_passedBy := (rg_passedBy rg3)[idx rg3 nx ny := regionNum],
                    rg_stack := push (rg_stack rg3) nx ny\<rparr>
              else rg2)"

definition scan8 :: "real \<Rightarrow> int \<Rightarrow> RegionGrow \<Rightarrow> int \<Rightarrow> int \<Rightarrow> RegionGrow" where
  "scan8 var regionNum rg x y = foldl (visit var regionNum x y) rg offsets"

text \<open>
  One iteration of the while loop of \<open>BFS\<close>, on the object and the locals \<open>x\<close> and
  \<open>y\<close>: pop, count the iteration, scan the eight neighbours of the popped pixel.
\<close>

fun BFS_popped ::
  "real \<Rightarrow> int \<Rightarrow> RegionGrow \<Rightarrow> Stack \<times> (int \<times> int) \<Rightarrow> RegionGrow \<times> int \<times> int" where
  "BFS_popped var regionNum rg (st, (x, y)) =
     (scan8 var regionNum (rg\<lparr>rg_stack := st, rg_iterations := rg_iterations rg + 1\<rparr>) x y, x, y)"

fun BFS_iter :: "real \<Rightarrow> int \<Rightarrow> RegionGrow \<times> int \<times> int \<Rightarrow> RegionGrow \<times> int \<times> int" where
  "BFS_iter var regionNum (rg, x, y) = BFS_popped var regionNum rg (pop (rg_stack rg) (x, y))"

partial_function (option) BFS_while ::
  "real \<Rightarrow> int \<Rightarrow> RegionGrow \<times> int \<times> int \<Rightarrow> RegionGrow option" where
  "BFS_while var regionNum s =
     (if isEmpty (rg_stack (fst s)) then Some (fst s)
      else BFS_while var regionNum (BFS_iter var regionNum s))"

text \<open>
  The locals \<open>x\<close> and \<open>y\<close> of \<open>BFS\<close> are uninitialised; the loop reads them only after
  \<open>pop\<close> has written them, so the value they start with (0 here) is never used.
\<close>

definition BFS :: "RegionGrow \<Rightarrow> int \<Rightarrow> int \<Rightarrow> RegionGrow option" where
  "BFS rg x0 y0 =
     (let var = rg_thresh rg;
          rg1 = touch x0 y0 rg;
          regionNum = rg_passedBy rg1 ! idx rg1 x0 y0
      in BFS_while var regionNum (rg1, 0, 0))"

subsection \<open>The exhaustive pass\<close>

text \<open>The body of the two nested loops of \<open>ApplyRegionGrow\<close> at the cell \<open>(x0, y0)\<close>.\<close>

definition grow_cell :: "RegionGrow \<Rightarrow> int \<times> int \<Rightarrow> RegionGrow option" where
  "grow_cell rg c =
     (case c of (x0, y0) \<Rightarrow>
        let rg0 = touch x0 y0 rg in
        if rg_passedBy rg0 ! idx rg0 x0 y0 = 0
        then
          let rg1 = rg0\<lparr>rg_currentRegion := rg_currentRegion rg0 + 1\<rparr>;
              rg2 = (touch x0 y0 rg1)
                      \<lparr>rg_passedBy := (rg_passedBy rg1)[idx rg1 x0 y0 := rg_currentRegion rg1]\<rparr>;
              rg3 = rg2\<lparr>rg_stack := push (rg_stack rg2) x0 y0\<rparr>
          in BFS rg3 x0 y0
        else Some rg0)"

text \<open>
  The two nested loops, over the cells in row-major order. The first argument is the
  object after the cells already done, or \<open>None\<close> when a call of \<open>BFS\<close> has not returned.
\<close>

fun for_cells :: "RegionGrow option \<Rightarrow> (int \<times> int) list \<Rightarrow> RegionGrow option" where
  "for_cells None cs = None"
| "for_cells (Some rg) [] = Some rg"
| "for_cells (Some rg) (c # cs) = for_cells (grow_cell rg c) cs"

definition cells :: "RegionGrow \<Rightarrow> (int \<times> int) list" where
  "cells rg =
     concat (map (\<lambda>x0. map (\<lambda>y0. (int x0, int y0)) [0..<nat (rg_w rg)]) [0..<nat (rg_h rg)])"

text \<open>
  \<open>ApplyRegionGrow\<close> up to the end of its two nested loops; the colouring of \<open>SEGS\<close>
  from the label map, and its writing and display, follow and change nothing else.
\<close>

definition ApplyRegionGrow :: "RegionGrow \<Rightarrow> RegionGrow option" where
  "ApplyRegionGrow rg = for_cells (Some rg) (cells rg)"

section \<open>Region growing from seeds: the adaptive program (reg\_grow\_dir.cpp)\<close>

text \<open>
  The second program is a C++ class. Its stack is a \<open>std::vector\<close> of pairs (a list, the
  top at the end), its label map \<open>passedBy\<close> a \<open>cv::Mat\<close> of doubles (integers here, as
  above), its image a matrix of \<open>Vec3i\<close> that \<open>readImage\<close> converts from the decoded 8-bit
  image. \<open>cv::mean\<close> and \<open>cv::norm\<close> are the arithmetic mean and the Euclidean norm, over the
  reals. \<open>dir_touched\<close> is the history variable of the coordinates at which a matrix is
  read or written with \<open>at\<close>; \<open>countNonZero\<close> and \<open>setTo\<close> work on a whole matrix and
  are not recorded. The names of this program carry the suffix or prefix \<open>dir\<close>.
\<close>

type_synonym Vec3i = "int \<times> int \<times> int"

definition push_dir :: "(int \<times> int) list \<Rightarrow> int \<times> int \<Rightarrow> (int \<times> int) list" where
  "push_dir item v = item @ [v]"

text \<open>\<open>pop\<close> of an empty vector is undefined in C++; the program pops only after \<open>isEmpty\<close>.\<close>

definition pop_dir :: "(int \<times> int) list \<Rightarrow> (int \<times> int) list \<times> (int \<times> int)" where
  "pop_dir item = (butlast item, last item)"

record RegionGrow_dir =
  dir_im :: "Vec3i Mat"
  dir_passedBy :: "int Mat"
  dir_h :: int
  dir_w :: int
  dir_currentRegion :: int
  dir_iterations :: int
  dir_stack :: "(int \<times> int) list"
  dir_thresh :: real
  dir_touched :: "(int \<times> int) list"

definition readImage :: "Vec3b Mat \<Rightarrow> Vec3i Mat" where
  "readImage img =
     \<lparr>mat_rows = mat_rows img, mat_cols = mat_cols img,
      mat_data = map (\<lambda>(b, g, r). (uint b, uint g, uint r)) (mat_data img)\<rparr>"

definition RegionGrow_new :: "Vec3b Mat \<Rightarrow> real \<Rightarrow> RegionGrow_dir" where
  "RegionGrow_new img th =
     (let im = readImage img; h = mat_rows im; w = mat_cols im
      in \<lparr>dir_im = im, dir_passedBy = zeros h w, dir_h = h, dir_w = w,
          dir_currentRegion = 0, dir_iterations = 0, dir_stack = [],
          dir_thresh = th, dir_touched = []\<rparr>)"

definition boundaries_dir :: "RegionGrow_dir \<Rightarrow> int \<Rightarrow> int \<Rightarrow> bool" where
  "boundaries_dir rg x y = (x \<ge> 0 \<and> x < dir_h rg \<and> y \<ge> 0 \<and> y < dir_w rg)"

definition getNeighbour :: "RegionGrow_dir \<Rightarrow> int \<Rightarrow> int \<Rightarrow> (int \<times> int) list" where
  "getNeighbour rg x0 y0 =
     map (\<lambda>(i, j). (x0 + i, y0 + j))
       (filter (\<lambda>(i, j). (i \<noteq> 0 \<or> j \<noteq> 0) \<and> boundaries_dir rg (x0 + i) (y0 + j)) offsets)"

definition normL2Sqr :: "Vec3i \<Rightarrow> int" where
  "normL2Sqr v = (case v of (a, b, c) \<Rightarrow> a\<^sup>2 + b\<^sup>2 + c\<^sup>2)"

definition norm3 :: "Vec3i \<Rightarrow> real" where
  "norm3 v = sqrt (real_of_int (normL2Sqr v))"

definition sub3 :: "Vec3i \<Rightarrow> Vec3i \<Rightarrow> Vec3i" where
  "sub3 u v = (case u of (a, b, c) \<Rightarrow> case v of (a', b', c') \<Rightarrow> (a - a', b - b', c - c'))"

definition mean3 :: "Vec3i \<Rightarrow> real" where
  "mean3 v = (case v of (a, b, c) \<Rightarrow> real_of_int (a + b + c) / 3)"

definition mean :: "real list \<Rightarrow> real" where
  "mean xs = sum_list xs / real (length xs)"

definition countNonZero :: "('a \<Rightarrow> bool) \<Rightarrow> 'a Mat \<Rightarrow> int" where
  "countNonZero p m = int (length (filter p (mat_data m)))"

definition dtouch :: "int \<Rightarrow> int \<Rightarrow> RegionGrow_dir \<Rightarrow> RegionGrow_dir" where
  "dtouch x y rg = rg\<lparr>dir_touched := (x, y) # dir_touched rg\<rparr>"

definition distance_dir :: "RegionGrow_dir \<Rightarrow> int \<Rightarrow> int \<Rightarrow> int \<Rightarrow> int \<Rightarrow> real" where
  "distance_dir rg x y x0 y0 = norm3 (sub3 (mat_at (dir_im rg) x0 y0) (mat_at (dir_im rg) x y))"

definition PassedAll :: "RegionGrow_dir \<Rightarrow> int \<Rightarrow> bool" where
  "PassedAll rg max_iteration =
     (dir_iterations rg > max_iteration \<or>
      countNonZero (\<lambda>v. v > 0) (dir_passedBy rg) = dir_h rg * dir_w rg)"

definition reset_region :: "RegionGrow_dir \<Rightarrow> int \<Rightarrow> int \<Rightarrow> RegionGrow_dir \<times> (int \<times> int)" where
  "reset_region rg x0 y0 =
     (let pb = dir_passedBy rg;
          rg1 = rg\<lparr>dir_passedBy :=
                  pb\<lparr>mat_data := map (\<lambda>v. if v = dir_currentRegion rg then 0 else v) (mat_data pb)\<rparr>\<rparr>;
          rg2 = rg1\<lparr>dir_currentRegion := dir_currentRegion rg1 - 1\<rparr>
      in (rg2, (x0 - 1, y0 - 1)))"

subsection \<open>The neighbour scan of one popped pixel\<close>

text \<open>
  The state of the loop of \<open>BFS\<close> over the neighbours: the object, the locals \<open>elems\<close> and
  \<open>var\<close>, and whether \<open>break\<close> has left the loop.
\<close>

record scan =
  sc_rg :: RegionGrow_dir
  sc_elems :: "real list"
  sc_var :: real
  sc_break :: bool

definition visit_dir :: "int \<Rightarrow> int \<Rightarrow> int \<Rightarrow> scan \<Rightarrow> int \<times> int \<Rightarrow> scan" where
  "visit_dir regionNum x0 y0 st n =
     (case n of (x, y) \<Rightarrow>
        if sc_break st then st
        else
          let rg1 = dtouch x y (sc_rg st) in
          if mat_at (dir_passedBy rg1) x y \<noteq> 0
          then st\<lparr>sc_rg := rg1, sc_var := max (sc_var st) (dir_thresh rg1)\<rparr>
          else
            let rg2 = dtouch x y (dtouch x0 y0 rg1) in
            if \<not> distance_dir rg2 x y x0 y0 < sc_var st
            then st\<lparr>sc_rg := rg2, sc_var := max (sc_var st) (dir_thresh rg2)\<rparr>
            else if PassedAll rg2 200000 then st\<lparr>sc_rg := rg2, sc_break := True\<rparr>
            else
              let rg3 = (dtouch x y rg2)\<lparr>dir_passedBy := mat_set (dir_passedBy rg2) x y regionNum\<rparr>;
                  rg4 = rg3\<lparr>dir_stack := push_dir (dir_stack rg3) (x, y)\<rparr>;
                  rg5 = dtouch x y rg4;
                  elems = sc_elems st @ [mean3 (mat_at (dir_im rg5) x y)];
                  var = mean elems
              in st\<lparr>sc_rg := rg5, sc_elems := elems, sc_var := max var (dir_thresh rg5)\<rparr>)"

definition BFS_init :: "RegionGrow_dir \<Rightarrow> int \<Rightarrow> int \<Rightarrow> scan" where
  "BFS_init rg x0 y0 =
     (let rg1 = dtouch x0 y0 (dtouch x0 y0 rg)
      in \<lparr>sc_rg = rg1, sc_elems = [mean3 (mat_at (dir_im rg1) x0 y0)],
          sc_var = dir_thresh rg1, sc_break = False\<rparr>)"

definition BFS_scan :: "RegionGrow_dir \<Rightarrow> int \<Rightarrow> int \<Rightarrow> scan" where
  "BFS_scan rg x0 y0 =
     (let regionNum = mat_at (dir_passedBy rg) x0 y0;
          neighbours = getNeighbour rg x0 y0
      in foldl (visit_dir regionNum x0 y0) (BFS_init rg x0 y0) neighbours)"

definition BFS_dir :: "RegionGrow_dir \<Rightarrow> int \<Rightarrow> int \<Rightarrow> RegionGrow_dir" where
  "BFS_dir rg x0 y0 = sc_rg (BFS_scan rg x0 y0)"

text \<open>
  The state of the scan when \<open>k\<close> neighbours have been through the loop: the state in
  which neighbour \<open>k\<close> (counting from 0) is compared, and the final state when \<open>k\<close> is
  the number of neighbours.
\<close>

definition scan_upto :: "RegionGrow_dir \<Rightarrow> int \<Rightarrow> int \<Rightarrow> nat \<Rightarrow> scan" where
  "scan_upto rg x0 y0 k =
     foldl (visit_dir (mat_at (dir_passedBy rg) x0 y0) x0 y0) (BFS_init rg x0 y0)
       (take k (getNeighbour rg x0 y0))"

subsection \<open>Growing from the seeds\<close>

text \<open>The while loop of \<open>ApplyRegionGrow\<close> that empties the stack.\<close>

fun drain_popped :: "RegionGrow_dir \<Rightarrow> (int \<times> int) list \<times> (int \<times> int) \<Rightarrow> RegionGrow_dir" where
  "drain_popped rg (item, (x, y)) =
     (let rg1 = BFS_dir (rg\<lparr>dir_stack := item\<rparr>) x y
      in rg1\<lparr>dir_iterations := dir_iterations rg1 + 1\<rparr>)"

definition drain_iter :: "RegionGrow_dir \<Rightarrow> RegionGrow_dir" where
  "drain_iter rg = drain_popped rg (pop_dir (dir_stack rg))"

partial_function (option) drain :: "RegionGrow_dir \<Rightarrow> RegionGrow_dir option" where
  "drain rg = (if dir_stack rg = [] then Some rg else drain (drain_iter rg))"

text \<open>
  \<open>seed_start\<close> is the start of a region at a seed that passed the test: the seed's pixel
  has been read for the test, the counter is incremented, the seed labelled and pushed.
  \<open>seed_grown\<close> is the rest of the body once the while loop has emptied the stack.
  \<open>seed_body\<close> is the body of the loop over the seeds, for one seed: the new object, the values of the
  locals \<open>x0\<close> and \<open>y0\<close> when the body ends, and whether \<open>break\<close> has left the loop.
  The result is \<open>None\<close> when the inner while loop does not end.
\<close>

definition seed_start :: "RegionGrow_dir \<Rightarrow> int \<Rightarrow> int \<Rightarrow> RegionGrow_dir" where
  "seed_start rg0 x0 y0 =
     (let rg1 = (dtouch x0 y0 rg0)\<lparr>dir_currentRegion := dir_currentRegion rg0 + 1\<rparr>;
          rg2 = (dtouch x0 y0 rg1)
                  \<lparr>dir_passedBy := mat_set (dir_passedBy rg1) x0 y0 (dir_currentRegion rg1)\<rparr>
      in rg2\<lparr>dir_stack := push_dir (dir_stack rg2) (x0, y0)\<rparr>)"

fun seed_grown ::
  "int \<Rightarrow> int \<Rightarrow> RegionGrow_dir option \<Rightarrow> (RegionGrow_dir \<times> (int \<times> int) \<times> bool) option" where
  "seed_grown x0 y0 None = None"
| "seed_grown x0 y0 (Some rg4) =
     (if PassedAll rg4 200000 then Some (rg4, (x0, y0), True)
      else
        let count = countNonZero (\<lambda>v. v = dir_currentRegion rg4) (dir_passedBy rg4) in
        if count < 8 * 8
        then case reset_region rg4 x0 y0 of
               (rg5, (new_x, new_y)) \<Rightarrow> Some (rg5, (new_x, new_y), False)
        else Some (rg4, (x0, y0), False))"

definition seed_body ::
  "RegionGrow_dir \<Rightarrow> int \<times> int \<Rightarrow> (RegionGrow_dir \<times> (int \<times> int) \<times> bool) option" where
  "seed_body rg i =
     (let x0 = fst i; y0 = snd i; rg0 = dtouch x0 y0 rg in
      if mat_at (dir_passedBy rg0) x0 y0 = 0 \<and> norm3 (mat_at (dir_im rg0) x0 y0) > 0
      then seed_grown x0 y0 (drain (seed_start rg0 x0 y0))
      else Some (if mat_at (dir_passedBy rg0) x0 y0 = 0 then dtouch x0 y0 rg0 else rg0,
                 (x0, y0), False))"

text \<open>
  The range-based loop takes its next seed from the list: the values the body leaves
  in \<open>x0\<close> and \<open>y0\<close> are locals of the finished iteration.
\<close>

fun seeds_loop :: "RegionGrow_dir \<Rightarrow> (int \<times> int) list \<Rightarrow> RegionGrow_dir option" where
  "seeds_loop rg [] = Some rg"
| "seeds_loop rg (i # rest) =
     (case seed_body rg i of
        None \<Rightarrow> None
      | Some (rg', xy, brk) \<Rightarrow> if brk then Some rg' else seeds_loop rg' rest)"

definition expand_seeds :: "RegionGrow_dir \<Rightarrow> (int \<times> int) list \<Rightarrow> (int \<times> int) list" where
  "expand_seeds rg seeds = concat (map (\<lambda>i. i # getNeighbour rg (fst i) (snd i)) seeds)"

text \<open>
  \<open>ApplyRegionGrow\<close> first replaces the caller's seed list by the list in which every
  seed is followed by its neighbours inside the image, then runs the loop over that list.
  The colouring and display under \<open>cv_display\<close> follow and change nothing else.
\<close>

definition ApplyRegionGrow_dir :: "RegionGrow_dir \<Rightarrow> (int \<times> int) list \<Rightarrow> RegionGrow_dir option" where
  "ApplyRegionGrow_dir rg seeds = seeds_loop rg (expand_seeds rg seeds)"

section \<open>Properties and example inputs\<close>

text \<open>The brightness the adaptive program accumulates for a pixel: the mean of its channels.\<close>

definition bright :: "RegionGrow_dir \<Rightarrow> int \<times> int \<Rightarrow> real" where
  "bright rg p = mean3 (mat_at (dir_im rg) (fst p) (snd p))"

text \<open>The neighbours the scan of the pixel popped from \<open>rg\<close> has pushed so far.\<close>

definition pushed_by :: "RegionGrow_dir \<Rightarrow> scan \<Rightarrow> (int \<times> int) list" where
  "pushed_by rg st = drop (length (dir_stack rg)) (dir_stack (sc_rg st))"

text \<open>A row of three grey pixels of brightness 30, 33 and 36, and a row of three equal pixels.\<close>

definition ex_grey3 :: "Vec3b Mat" where
  "ex_grey3 = \<lparr>mat_rows = 1, mat_cols = 3, mat_data = [(30, 30, 30), (33, 33, 33), (36, 36, 36)]\<rparr>"

definition ex_flat3 :: "Vec3b Mat" where
  "ex_flat3 = \<lparr>mat_rows = 1, mat_cols = 3, mat_data = [(7, 7, 7), (7, 7, 7), (7, 7, 7)]\<rparr>"

text \<open>
  The object when a region has been started at the seed \<open>(x0, y0)\<close> of a fresh object, the
  seed has been popped and scanned, and the next pixel has been popped: the object on which
  the second call of \<open>BFS\<close> of the region runs.
\<close>

definition second_pop :: "Vec3b Mat \<Rightarrow> real \<Rightarrow> int \<Rightarrow> int \<Rightarrow> RegionGrow_dir" where
  "second_pop img th x0 y0 =
     (let rg = drain_iter (seed_start (dtouch x0 y0 (RegionGrow_new img th)) x0 y0)
      in rg\<lparr>dir_stack := fst (pop_dir (dir_stack rg))\<rparr>)"

subsection \<open>Properties of the fixed-threshold program\<close>

text \<open>
  A stack is well formed when its size is between 0 and its positive capacity and both
  arrays have the capacity's length; its items are the pairs below the size, the top last.
\<close>

definition stack_ok :: "Stack \<Rightarrow> bool" where
  "stack_ok s = (0 \<le> stack_size s \<and> stack_size s \<le> stack_capacity s \<and> 0 < stack_capacity s \<and>
     length (stack_x s) = nat (stack_capacity s) \<and> length (stack_y s) = nat (stack_capacity s))"

definition stack_items :: "Stack \<Rightarrow> (int \<times> int) list" where
  "stack_items s = zip (take (nat (stack_size s)) (stack_x s)) (take (nat (stack_size s)) (stack_y s))"

text \<open>
  The label map has one cell for each pixel. \<open>label\<close> and \<open>pix\<close> are the label and the
  colour of a pixel, \<open>inside\<close> the boundary predicate on a pair, \<open>adjacent\<close> the relation of
  a pixel to its eight neighbours. A decoded image has non-negative dimensions and one
  sample for each pixel.
\<close>

definition grid_ok :: "RegionGrow \<Rightarrow> bool" where
  "grid_ok rg = (0 \<le> rg_h rg \<and> 0 \<le> rg_w rg \<and> length (rg_passedBy rg) = nat (rg_h rg * rg_w rg))"

definition label :: "RegionGrow \<Rightarrow> int \<times> int \<Rightarrow> int" where
  "label rg p = rg_passedBy rg ! idx rg (fst p) (snd p)"

definition inside :: "RegionGrow \<Rightarrow> int \<times> int \<Rightarrow> bool" where
  "inside rg p = boundaries rg (fst p) (snd p)"

definition pix :: "RegionGrow \<Rightarrow> int \<times> int \<Rightarrow> Vec3b" where
  "pix rg p = mat_at (rg_im rg) (fst p) (snd p)"

definition adjacent :: "int \<times> int \<Rightarrow> int \<times> int \<Rightarrow> bool" where
  "adjacent p n = (n \<noteq> p \<and> \<bar>fst n - fst p\<bar> \<le> 1 \<and> \<bar>snd n - snd p\<bar> \<le> 1)"

definition valid_image :: "Vec3b Mat \<Rightarrow> bool" where
  "valid_image img = (0 \<le> mat_rows img \<and> 0 \<le> mat_cols img \<and>
     length (mat_data img) = nat (mat_rows img * mat_cols img))"

text \<open>
  \<open>admit\<close> is what the loop body does to the object when it admits the neighbour
  \<open>(nx, ny)\<close> into region \<open>k\<close> (the history aside), \<open>relabel\<close> its effect on the label
  map, and \<open>seeded\<close> the object on which \<open>ApplyRegionGrow\<close> enters the while loop of
  \<open>BFS\<close> for a new region at the unlabelled cell \<open>c\<close>.
\<close>

definition admit :: "int \<Rightarrow> int \<Rightarrow> int \<Rightarrow> RegionGrow \<Rightarrow> RegionGrow" where
  "admit k nx ny rg =
     rg\<lparr>rg_passedBy := (rg_passedBy rg)[idx rg nx ny := k], rg_stack := push (rg_stack rg) nx ny\<rparr>"

definition relabel :: "int \<Rightarrow> int \<times> int \<Rightarrow> RegionGrow \<Rightarrow> RegionGrow" where
  "relabel k n rg = rg\<lparr>rg_passedBy := (rg_passedBy rg)[idx rg (fst n) (snd n) := k]\<rparr>"

definition seeded :: "RegionGrow \<Rightarrow> int \<times> int \<Rightarrow> RegionGrow" where
  "seeded rg c =
     rg\<lparr>rg_currentRegion := rg_currentRegion rg + 1,
        rg_passedBy := (rg_passedBy rg)[idx rg (fst c) (snd c) := rg_currentRegion rg + 1],
        rg_stack := push (rg_stack rg) (fst c) (snd c),
        rg_touched := [c, c, c] @ rg_touched rg\<rparr>"

text \<open>
  The invariant of the while loop of \<open>BFS\<close> while region \<open>k\<close> grows: every pixel on
  the stack is inside the image and carries the label \<open>k\<close>, and every coordinate in the
  history is inside the image. \<open>fuel\<close> decreases with every iteration of the loop.
  A property \<open>Q\<close> of the object is preserved by the growth of region \<open>k\<close> when it does
  not depend on the stack, the iteration count and the history, and survives labelling an
  unlabelled pixel inside the image that is adjacent to a pixel of region \<open>k\<close> and closer
  to it than \<open>var\<close>.
\<close>

definition growing :: "int \<Rightarrow> RegionGrow \<Rightarrow> bool" where
  "growing k rg =
     (grid_ok rg \<and> stack_ok (rg_stack rg) \<and> k \<noteq> 0 \<and>
      list_all (\<lambda>p. inside rg p \<and> label rg p = k) (stack_items (rg_stack rg)) \<and>
      list_all (inside rg) (rg_touched rg))"

definition fuel :: "RegionGrow \<Rightarrow> nat" where
  "fuel rg = 2 * length (filter (\<lambda>v. v = 0) (rg_passedBy rg)) + length (stack_items (rg_stack rg))"

definition preserved :: "real \<Rightarrow> int \<Rightarrow> (RegionGrow \<Rightarrow> bool) \<Rightarrow> bool" where
  "preserved var k Q =
     ((\<forall>rg st n T. Q (rg\<lparr>rg_stack := st, rg_iterations := n, rg_touched := T\<rparr>) = Q rg) \<and>
      (\<forall>rg p n. growing k rg \<and> Q rg \<and> inside rg p \<and> label rg p = k \<and> inside rg n \<and>
          adjacent p n \<and> label rg n = 0 \<and> distance (pix rg p) (pix rg n) < var
          \<longrightarrow> Q (relabel k n rg)))"

text \<open>
  A pixel is the first of its region when no cell before it, in row-major order, has its
  label: the seed of a region of the exhaustive pass. It is linked when one of its eight
  neighbours has its label and is closer to it than the threshold.
\<close>

definition is_first :: "RegionGrow \<Rightarrow> int \<times> int \<Rightarrow> bool" where
  "is_first rg p = (\<forall>i < idx rg (fst p) (snd p). rg_passedBy rg ! i \<noteq> label rg p)"

definition linked :: "RegionGrow \<Rightarrow> int \<times> int \<Rightarrow> bool" where
  "linked rg p =
     (\<exists>q. inside rg q \<and> adjacent q p \<and> label rg q = label rg p \<and>
          distance (pix rg q) (pix rg p) < rg_thresh rg)"

definition explained :: "RegionGrow \<Rightarrow> bool" where
  "explained rg = (\<forall>p. inside rg p \<and> label rg p \<noteq> 0 \<longrightarrow> is_first rg p \<or> linked rg p)"

text \<open>
  The invariant while the region \<open>k\<close> seeded at the cell of index \<open>s\<close> grows, and the
  invariant of the exhaustive pass before the cell of index \<open>n\<close>.
\<close>

definition seeded_inv :: "RegionGrow \<Rightarrow> nat \<Rightarrow> int \<Rightarrow> RegionGrow \<Rightarrow> bool" where
  "seeded_inv rg0 s k rg =
     (rg_h rg = rg_h rg0 \<and> rg_w rg = rg_w rg0 \<and> rg_im rg = rg_im rg0 \<and>
      rg_thresh rg = rg_thresh rg0 \<and> rg_currentRegion rg = k \<and> 0 < k \<and>
      (\<forall>i < s. rg_passedBy rg ! i \<noteq> 0 \<and> rg_passedBy rg ! i \<noteq> k) \<and> rg_passedBy rg ! s = k \<and>
      (\<forall>v\<in>set (rg_passedBy rg). 0 \<le> v \<and> v \<le> k) \<and>
      (\<forall>j. 1 \<le> j \<and> j \<le> k \<longrightarrow> j \<in> set (rg_passedBy rg)) \<and>
      explained rg)"

definition pass_inv :: "RegionGrow \<Rightarrow> nat \<Rightarrow> RegionGrow \<Rightarrow> bool" where
  "pass_inv rg0 n rg =
     (grid_ok rg \<and> stack_ok (rg_stack rg) \<and> stack_items (rg_stack rg) = [] \<and>
      list_all (inside rg) (rg_touched rg) \<and>
      rg_h rg = rg_h rg0 \<and> rg_w rg = rg_w rg0 \<and> rg_im rg = rg_im rg0 \<and>
      rg_thresh rg = rg_thresh rg0 \<and> 0 \<le> rg_currentRegion rg \<and>
      (\<forall>i < n. rg_passedBy rg ! i \<noteq> 0) \<and>
      (\<forall>v\<in>set (rg_passedBy rg). 0 \<le> v \<and> v \<le> rg_currentRegion rg) \<and>
      (\<forall>j. 1 \<le> j \<and> j \<le> rg_currentRegion rg \<longrightarrow> j \<in> set (rg_passedBy rg)) \<and>
      explained rg)"

text \<open>A row whose red channel is 0, 5 and 10.\<close>

definition ex_ramp3 :: "Vec3b Mat" where
  "ex_ramp3 = \<lparr>mat_rows = 1, mat_cols = 3, mat_data = [(0, 0, 0), (5, 0, 0), (10, 0, 0)]\<rparr>"

subsection \<open>Properties of the adaptive program\<close>

text \<open>
  The label map has the dimensions of the image. \<open>dlabel\<close> is the label of a pixel,
  \<open>dinside\<close> the boundary predicate on a pair, \<open>region_size\<close> the number of cells
  holding a label (what \<open>countNonZero(passedBy == j)\<close> returns). A seed list is valid when
  every seed is a coordinate of the image. \<open>dframe\<close> relates two objects with the same
  image, dimensions and threshold.
\<close>

definition dgrid_ok :: "RegionGrow_dir \<Rightarrow> bool" where
  "dgrid_ok rg =
     (0 \<le> dir_h rg \<and> 0 \<le> dir_w rg \<and> mat_rows (dir_passedBy rg) = dir_h rg \<and>
      mat_cols (dir_passedBy rg) = dir_w rg \<and>
      length (mat_data (dir_passedBy rg)) = nat (dir_h rg * dir_w rg))"

definition dlabel :: "RegionGrow_dir \<Rightarrow> int \<times> int \<Rightarrow> int" where
  "dlabel rg p = mat_at (dir_passedBy rg) (fst p) (snd p)"

definition dinside :: "RegionGrow_dir \<Rightarrow> int \<times> int \<Rightarrow> bool" where
  "dinside rg p = boundaries_dir rg (fst p) (snd p)"

definition region_size :: "RegionGrow_dir \<Rightarrow> int \<Rightarrow> int" where
  "region_size rg j = countNonZero (\<lambda>v. v = j) (dir_passedBy rg)"

definition valid_seeds :: "Vec3b Mat \<Rightarrow> (int \<times> int) list \<Rightarrow> bool" where
  "valid_seeds img seeds =
     list_all (\<lambda>p. 0 \<le> fst p \<and> fst p < mat_rows img \<and> 0 \<le> snd p \<and> snd p < mat_cols img) seeds"

definition dframe :: "RegionGrow_dir \<Rightarrow> RegionGrow_dir \<Rightarrow> bool" where
  "dframe rg0 rg =
     (dir_h rg = dir_h rg0 \<and> dir_w rg = dir_w rg0 \<and> dir_im rg = dir_im rg0 \<and>
      dir_thresh rg = dir_thresh rg0)"

text \<open>
  \<open>admit_dir\<close> is what the loop body of \<open>BFS\<close> does to the object when it admits the
  neighbour \<open>n\<close>, the history aside.
\<close>

definition admit_dir :: "int \<times> int \<Rightarrow> RegionGrow_dir \<Rightarrow> RegionGrow_dir" where
  "admit_dir n rg =
     rg\<lparr>dir_passedBy := mat_set (dir_passedBy rg) (fst n) (snd n) (dir_currentRegion rg),
        dir_stack := dir_stack rg @ [n]\<rparr>"

text \<open>
  The invariant of the while loop that empties the stack, while the region whose id is
  the counter grows: the pixels on the stack are inside the image and carry that id, the
  history holds coordinates of the image only, the labels lie between 0 and the counter,
  every earlier region has at least 64 pixels and the growing one at least one.
  \<open>fuel_dir\<close> decreases with every iteration of the loop.
\<close>

definition growing_dir :: "RegionGrow_dir \<Rightarrow> bool" where
  "growing_dir rg =
     (dgrid_ok rg \<and> 1 \<le> dir_currentRegion rg \<and>
      list_all (\<lambda>p. dinside rg p \<and> dlabel rg p = dir_currentRegion rg) (dir_stack rg) \<and>
      list_all (dinside rg) (dir_touched rg) \<and>
      (\<forall>v\<in>set (mat_data (dir_passedBy rg)). 0 \<le> v \<and> v \<le> dir_currentRegion rg) \<and>
      (\<forall>j. 1 \<le> j \<and> j < dir_currentRegion rg \<longrightarrow> 64 \<le> region_size rg j) \<and>
      1 \<le> region_size rg (dir_currentRegion rg))"

definition fuel_dir :: "RegionGrow_dir \<Rightarrow> nat" where
  "fuel_dir rg = 2 * length (filter (\<lambda>v. v = 0) (mat_data (dir_passedBy rg))) + length (dir_stack rg)"

text \<open>
  The invariant of the loop over the seeds between two seeds, and what holds of the
  object \<open>ApplyRegionGrow\<close> returns.
\<close>

definition rest_dir :: "RegionGrow_dir \<Rightarrow> bool" where
  "rest_dir rg =
     (dgrid_ok rg \<and> dir_stack rg = [] \<and> list_all (dinside rg) (dir_touched rg) \<and>
      0 \<le> dir_currentRegion rg \<and>
      (\<forall>v\<in>set (mat_data (dir_passedBy rg)). 0 \<le> v \<and> v \<le> dir_currentRegion rg) \<and>
      (\<forall>j. 1 \<le> j \<and> j \<le> dir_currentRegion rg \<longrightarrow> 64 \<le> region_size rg j))"

definition final_dir :: "RegionGrow_dir \<Rightarrow> bool" where
  "final_dir rg =
     (dgrid_ok rg \<and> list_all (dinside rg) (dir_touched rg) \<and> 0 \<le> dir_currentRegion rg \<and>
      (\<forall>v\<in>set (mat_data (dir_passedBy rg)). 0 \<le> v \<and> v \<le> dir_currentRegion rg) \<and>
      (\<forall>j. 1 \<le> j \<and> j < dir_currentRegion rg \<longrightarrow> 64 \<le> region_size rg j) \<and>
      (1 \<le> dir_currentRegion rg \<longrightarrow> 1 \<le> region_size rg (dir_currentRegion rg)) \<and>
      (\<not> PassedAll rg 200000 \<and> 1 \<le> dir_currentRegion rg
         \<longrightarrow> 64 \<le> region_size rg (dir_currentRegion rg)))"


definition ex_island3 :: "Vec3b Mat" where
  "ex_island3 = \<lparr>mat_rows = 3, mat_cols = 3, mat_data =
     [(200, 200, 200), (200, 200, 200), (200, 200, 200),
      (200, 200, 200), (100, 100, 100), (100, 100, 100),
      (200, 200, 200), (100, 100, 100), (100, 100, 100)]\<rparr>"

section \<open>Comparisons with a square root, and evaluation\<close>

lemma sqrt_less_iff: "0 \<le> d \<Longrightarrow> sqrt d < t \<longleftrightarrow> 0 < t \<and> d < t\<^sup>2"
proof (cases "0 < t")
  case True
  assume "0 \<le> d"
  have "sqrt d < t \<longleftrightarrow> sqrt d < sqrt (t\<^sup>2)" using True by simp
  also have "\<dots> \<longleftrightarrow> d < t\<^sup>2" by (rule real_sqrt_less_iff)
  finally show ?thesis using True by simp
next
  case False
  assume "0 \<le> d"
  then have "0 \<le> sqrt d" by simp
  with False show ?thesis by linarith
qed

lemma sq_dist_nonneg: "0 \<le> sq_dist a b"
  by (cases a; cases b) (simp add: sq_dist_def)

lemma distance_less_iff: "distance a b < t \<longleftrightarrow> 0 < t \<and> real_of_int (sq_dist a b) < t\<^sup>2"
  unfolding distance_def using sq_dist_nonneg[of a b] by (simp add: sqrt_less_iff)

lemma normL2Sqr_nonneg: "0 \<le> normL2Sqr v"
  by (cases v) (simp add: normL2Sqr_def)

lemma norm3_pos: "norm3 v > 0 \<longleftrightarrow> normL2Sqr v > 0"
  by (simp add: norm3_def)

lemma norm3_less: "norm3 v < t \<longleftrightarrow> 0 < t \<and> real_of_int (normL2Sqr v) < t\<^sup>2"
  unfolding norm3_def using normL2Sqr_nonneg[of v] by (simp add: sqrt_less_iff)

lemma distance_dir_less:
  "distance_dir rg x y x0 y0 < t \<longleftrightarrow>
   0 < t \<and> real_of_int (normL2Sqr (sub3 (mat_at (dir_im rg) x0 y0) (mat_at (dir_im rg) x y))) < t\<^sup>2"
  by (simp add: distance_dir_def norm3_less)

text \<open>
  The comparisons of a square root with a bound are evaluated through the squares, and
  the two while loops through their defining equations.
\<close>

declare distance_less_iff [code_unfold] norm3_pos [code_unfold] distance_dir_less [code_unfold]
declare BFS_while.simps [code] drain.simps [code]

section \<open>The stack\<close>

text \<open>
  C10: \<open>pop\<close> on an empty stack returns the stack as it was (its size, capacity and
  contents) and leaves the caller's output variables as they were. The size is 0 after
  \<open>initStack\<close>, and neither \<open>pop\<close> nor \<open>push\<close> takes a size that is not negative below
  zero: the size field never goes below zero.
\<close>

theorem pop_empty_unchanged:
  "(isEmpty s \<longrightarrow> pop s out = (s, out)) \<and>
   stack_size (initStack c) = 0 \<and>
   (0 \<le> stack_size s \<longrightarrow>
      0 \<le> stack_size (fst (pop s out)) \<and> 0 \<le> stack_size (push s a b))"
  by (simp add: pop_def push_def isEmpty_def initStack_def Let_def)

theorem pop_empty_unchanged_witness:
  "isEmpty (initStack 1000) \<and>
   pop (initStack 1000) (7, 9) = (initStack 1000, (7, 9)) \<and>
   0 \<le> stack_size (fst (pop (initStack 1000) (7, 9))) \<and>
   0 \<le> stack_size (push (initStack 1000) 3 4)"
  using pop_empty_unchanged [of "initStack 1000" "(7, 9)" 1000 3 4]
  by (simp add: isEmpty_def initStack_def)

section \<open>The neighbour scan of the adaptive program\<close>

lemma scan_upto_add:
  "scan_upto rg x0 y0 (k + j) =
   foldl (visit_dir (mat_at (dir_passedBy rg) x0 y0) x0 y0) (scan_upto rg x0 y0 k)
     (take j (drop k (getNeighbour rg x0 y0)))"
  by (simp add: scan_upto_def take_add)

lemma BFS_scan_upto: "BFS_scan rg x0 y0 = scan_upto rg x0 y0 (length (getNeighbour rg x0 y0))"
  by (simp add: BFS_scan_def scan_upto_def Let_def)

subsection \<open>The floor of the adaptive bound\<close>

lemma visit_dir_thresh: "dir_thresh (sc_rg (visit_dir r x0 y0 st n)) = dir_thresh (sc_rg st)"
  by (cases n) (simp add: visit_dir_def Let_def dtouch_def)

lemma visit_dir_floor:
  "dir_thresh (sc_rg st) \<le> sc_var st \<Longrightarrow> dir_thresh (sc_rg st) \<le> sc_var (visit_dir r x0 y0 st n)"
  by (cases n) (simp add: visit_dir_def Let_def dtouch_def)

lemma foldl_visit_dir_floor:
  "dir_thresh (sc_rg st) \<le> sc_var st \<Longrightarrow>
   dir_thresh (sc_rg (foldl (visit_dir r x0 y0) st ns)) = dir_thresh (sc_rg st) \<and>
   dir_thresh (sc_rg st) \<le> sc_var (foldl (visit_dir r x0 y0) st ns)"
proof (induction ns arbitrary: st)
  case Nil
  then show ?case by simp
next
  case (Cons n ns)
  from Cons.prems
  have "dir_thresh (sc_rg (visit_dir r x0 y0 st n)) \<le> sc_var (visit_dir r x0 y0 st n)"
    by (simp add: visit_dir_thresh visit_dir_floor)
  from Cons.IH[OF this] show ?case by (simp add: visit_dir_thresh)
qed

lemma visit_dir_var_update:
  "sc_var (visit_dir r x0 y0 st n) =
     (if sc_break (visit_dir r x0 y0 st n) then sc_var st
      else if sc_elems (visit_dir r x0 y0 st n) \<noteq> sc_elems st
      then max (mean (sc_elems (visit_dir r x0 y0 st n))) (dir_thresh (sc_rg st))
      else max (sc_var st) (dir_thresh (sc_rg st)))"
  by (cases n) (simp add: visit_dir_def Let_def dtouch_def)

text \<open>
  C5: in every call of \<open>BFS\<close> of the adaptive program the bound \<open>var\<close> starts at the
  threshold, and in the state in which any neighbour is compared (the state after \<open>k\<close>
  neighbours, for every \<open>k\<close>) it is at least the threshold, which the scan never changes.
  One pass of the loop body leaves the bound alone when it breaks, and otherwise sets it
  to the maximum of the threshold and the mean of the accumulator (when the neighbour was
  admitted) or the former bound (when it was not).
\<close>

theorem adaptive_bound_floor:
  "sc_var (scan_upto rg x0 y0 0) = dir_thresh rg \<and>
   dir_thresh rg \<le> sc_var (scan_upto rg x0 y0 k) \<and>
   dir_thresh (sc_rg (scan_upto rg x0 y0 k)) = dir_thresh rg \<and>
   sc_var (visit_dir r x0 y0 st n) =
     (if sc_break (visit_dir r x0 y0 st n) then sc_var st
      else if sc_elems (visit_dir r x0 y0 st n) \<noteq> sc_elems st
      then max (mean (sc_elems (visit_dir r x0 y0 st n))) (dir_thresh (sc_rg st))
      else max (sc_var st) (dir_thresh (sc_rg st)))"
proof -
  have init: "dir_thresh (sc_rg (BFS_init rg x0 y0)) = dir_thresh rg"
    "sc_var (BFS_init rg x0 y0) = dir_thresh rg"
    by (simp_all add: BFS_init_def Let_def dtouch_def)
  then have "dir_thresh (sc_rg (BFS_init rg x0 y0)) \<le> sc_var (BFS_init rg x0 y0)" by simp
  from foldl_visit_dir_floor[OF this] init show ?thesis
    by (simp add: scan_upto_def visit_dir_var_update)
qed

subsection \<open>The accumulator\<close>

lemma visit_dir_acc:
  assumes st: "dir_stack (sc_rg st) = dir_stack rg @ pushed"
    and el: "sc_elems st = bright rg (x0, y0) # map (bright rg) pushed"
    and var: "sc_var st = (if pushed = [] then dir_thresh rg else max (mean (sc_elems st)) (dir_thresh rg))"
    and im: "dir_im (sc_rg st) = dir_im rg"
    and th: "dir_thresh (sc_rg st) = dir_thresh rg"
  shows "\<exists>pushed'. dir_stack (sc_rg (visit_dir r x0 y0 st n)) = dir_stack rg @ pushed' \<and>
     sc_elems (visit_dir r x0 y0 st n) = bright rg (x0, y0) # map (bright rg) pushed' \<and>
     sc_var (visit_dir r x0 y0 st n) =
       (if pushed' = [] then dir_thresh rg
        else max (mean (sc_elems (visit_dir r x0 y0 st n))) (dir_thresh rg)) \<and>
     dir_im (sc_rg (visit_dir r x0 y0 st n)) = dir_im rg \<and>
     dir_thresh (sc_rg (visit_dir r x0 y0 st n)) = dir_thresh rg"
proof -
  obtain x y where n: "n = (x, y)" by (cases n)
  have floor: "dir_thresh rg \<le> sc_var st" using var by (simp split: if_splits)
  let ?st' = "visit_dir r x0 y0 st n"
  have frame: "dir_im (sc_rg ?st') = dir_im rg \<and> dir_thresh (sc_rg ?st') = dir_thresh rg"
    using im th by (simp add: n visit_dir_def Let_def dtouch_def)
  have "(dir_stack (sc_rg ?st') = dir_stack (sc_rg st) \<and> sc_elems ?st' = sc_elems st \<and>
         sc_var ?st' = sc_var st)
     \<or> (dir_stack (sc_rg ?st') = dir_stack (sc_rg st) @ [(x, y)] \<and>
        sc_elems ?st' = sc_elems st @ [bright rg (x, y)] \<and>
        sc_var ?st' = max (mean (sc_elems ?st')) (dir_thresh rg))"
    using im th floor
    by (simp add: n visit_dir_def Let_def dtouch_def push_dir_def bright_def max_def)
  then consider
      (same) "dir_stack (sc_rg ?st') = dir_stack (sc_rg st)" "sc_elems ?st' = sc_elems st"
        "sc_var ?st' = sc_var st"
    | (adm) "dir_stack (sc_rg ?st') = dir_stack (sc_rg st) @ [(x, y)]"
        "sc_elems ?st' = sc_elems st @ [bright rg (x, y)]"
        "sc_var ?st' = max (mean (sc_elems ?st')) (dir_thresh rg)"
    by blast
  then show ?thesis
  proof cases
    case same
    with st el var frame show ?thesis by (intro exI[of _ pushed]) simp
  next
    case adm
    with st el var frame show ?thesis by (intro exI[of _ "pushed @ [(x, y)]"]) simp
  qed
qed

lemma foldl_visit_dir_acc:
  assumes "dir_stack (sc_rg st) = dir_stack rg @ pushed"
    and "sc_elems st = bright rg (x0, y0) # map (bright rg) pushed"
    and "sc_var st = (if pushed = [] then dir_thresh rg else max (mean (sc_elems st)) (dir_thresh rg))"
    and "dir_im (sc_rg st) = dir_im rg"
    and "dir_thresh (sc_rg st) = dir_thresh rg"
  shows "\<exists>pushed'. dir_stack (sc_rg (foldl (visit_dir r x0 y0) st ns)) = dir_stack rg @ pushed' \<and>
     sc_elems (foldl (visit_dir r x0 y0) st ns) = bright rg (x0, y0) # map (bright rg) pushed' \<and>
     sc_var (foldl (visit_dir r x0 y0) st ns) =
       (if pushed' = [] then dir_thresh rg
        else max (mean (sc_elems (foldl (visit_dir r x0 y0) st ns))) (dir_thresh rg))"
  using assms
proof (induction ns arbitrary: st pushed)
  case Nil
  then show ?case by auto
next
  case (Cons n ns)
  from visit_dir_acc[OF Cons.prems, of r n] obtain pushed' where
    "dir_stack (sc_rg (visit_dir r x0 y0 st n)) = dir_stack rg @ pushed'"
    "sc_elems (visit_dir r x0 y0 st n) = bright rg (x0, y0) # map (bright rg) pushed'"
    "sc_var (visit_dir r x0 y0 st n) =
       (if pushed' = [] then dir_thresh rg
        else max (mean (sc_elems (visit_dir r x0 y0 st n))) (dir_thresh rg))"
    "dir_im (sc_rg (visit_dir r x0 y0 st n)) = dir_im rg"
    "dir_thresh (sc_rg (visit_dir r x0 y0 st n)) = dir_thresh rg"
    by blast
  from Cons.IH[OF this] show ?case unfolding foldl_Cons .
qed

text \<open>
  C4, as the program has it: the accumulator \<open>elems\<close> and the bound \<open>var\<close> are locals of
  one call of \<open>BFS\<close>, that is of the scan of one popped pixel. The accumulator starts as
  the brightness of the popped pixel alone and the bound as the threshold; after any number
  \<open>k\<close> of neighbours the accumulator holds the brightness of the popped pixel followed by
  one entry for each neighbour this scan has pushed, in order, and the bound is the
  threshold while nothing was pushed and afterwards the mean of that accumulator, floored
  at the threshold.
\<close>

theorem accumulator_per_pop:
  "sc_elems (scan_upto rg x0 y0 0) = [bright rg (x0, y0)] \<and>
   sc_var (scan_upto rg x0 y0 0) = dir_thresh rg \<and>
   dir_stack (sc_rg (scan_upto rg x0 y0 k)) = dir_stack rg @ pushed_by rg (scan_upto rg x0 y0 k) \<and>
   sc_elems (scan_upto rg x0 y0 k) =
     bright rg (x0, y0) # map (bright rg) (pushed_by rg (scan_upto rg x0 y0 k)) \<and>
   sc_var (scan_upto rg x0 y0 k) =
     (if pushed_by rg (scan_upto rg x0 y0 k) = [] then dir_thresh rg
      else max (mean (sc_elems (scan_upto rg x0 y0 k))) (dir_thresh rg))"
proof -
  let ?i = "BFS_init rg x0 y0"
  have i: "dir_stack (sc_rg ?i) = dir_stack rg @ []"
    "sc_elems ?i = bright rg (x0, y0) # map (bright rg) []"
    "sc_var ?i = (if ([]::(int \<times> int) list) = [] then dir_thresh rg
                  else max (mean (sc_elems ?i)) (dir_thresh rg))"
    "dir_im (sc_rg ?i) = dir_im rg" "dir_thresh (sc_rg ?i) = dir_thresh rg"
    by (simp_all add: BFS_init_def Let_def dtouch_def bright_def)
  from foldl_visit_dir_acc[OF i, of "mat_at (dir_passedBy rg) x0 y0" "take k (getNeighbour rg x0 y0)"]
  obtain pushed' where p: "dir_stack (sc_rg (scan_upto rg x0 y0 k)) = dir_stack rg @ pushed'"
    "sc_elems (scan_upto rg x0 y0 k) = bright rg (x0, y0) # map (bright rg) pushed'"
    "sc_var (scan_upto rg x0 y0 k) =
       (if pushed' = [] then dir_thresh rg
        else max (mean (sc_elems (scan_upto rg x0 y0 k))) (dir_thresh rg))"
    unfolding scan_upto_def by blast
  from p(1) have "pushed_by rg (scan_upto rg x0 y0 k) = pushed'" by (simp add: pushed_by_def)
  with p i(2,3) show ?thesis by (simp add: scan_upto_def)
qed

text \<open>
  The claim as the spec states it (one entry for every pixel admitted into the region since
  its seed, and the bound the mean over that whole sequence) fails on the row of grey
  pixels of brightness 30, 33 and 36 with threshold 10 and seed \<open>(0, 0)\<close>. The scan of the
  seed admits \<open>(0, 1)\<close>; \<open>(0, 1)\<close> is popped next, and when its scan ends the region has
  three pixels, of mean brightness 33, while the accumulator holds the two entries 33 and
  36 and the bound is their mean 34.5.
\<close>

theorem accumulator_whole_region_counterexample:
  "getNeighbour (second_pop ex_grey3 10 0 0) 0 1 = [(0, 0), (0, 2)] \<and>
   mat_data (dir_passedBy (sc_rg (BFS_scan (second_pop ex_grey3 10 0 0) 0 1))) = [1, 1, 1] \<and>
   map (bright (second_pop ex_grey3 10 0 0)) [(0, 0), (0, 1), (0, 2)] = [30, 33, 36::real] \<and>
   sc_elems (BFS_scan (second_pop ex_grey3 10 0 0) 0 1) = [33, 36] \<and>
   sc_var (BFS_scan (second_pop ex_grey3 10 0 0) 0 1) = 69 / 2 \<and>
   mean [30, 33, 36] = (33::real)"
  by code_simp

subsection \<open>The termination predicate during a scan\<close>

lemma PassedAll_dtouch [simp]: "PassedAll (dtouch x y rg) m = PassedAll rg m"
  by (simp add: PassedAll_def dtouch_def)

lemma visit_dir_stopped:
  assumes "PassedAll (sc_rg st) 200000"
  shows "dir_passedBy (sc_rg (visit_dir r x0 y0 st n)) = dir_passedBy (sc_rg st) \<and>
         dir_stack (sc_rg (visit_dir r x0 y0 st n)) = dir_stack (sc_rg st) \<and>
         sc_elems (visit_dir r x0 y0 st n) = sc_elems st \<and>
         PassedAll (sc_rg (visit_dir r x0 y0 st n)) 200000"
proof -
  obtain x y where n: "n = (x, y)" by (cases n)
  have "PassedAll (dtouch x y (dtouch x0 y0 (dtouch x y (sc_rg st)))) 200000" using assms by simp
  then show ?thesis using assms
    by (simp add: n visit_dir_def Let_def) (simp add: dtouch_def)
qed

lemma foldl_visit_dir_stopped:
  "PassedAll (sc_rg st) 200000 \<Longrightarrow>
   dir_passedBy (sc_rg (foldl (visit_dir r x0 y0) st ns)) = dir_passedBy (sc_rg st) \<and>
   dir_stack (sc_rg (foldl (visit_dir r x0 y0) st ns)) = dir_stack (sc_rg st) \<and>
   sc_elems (foldl (visit_dir r x0 y0) st ns) = sc_elems st"
proof (induction ns arbitrary: st)
  case Nil
  then show ?case by simp
next
  case (Cons n ns)
  from visit_dir_stopped[OF Cons.prems, of r x0 y0 n] Cons.IH[of "visit_dir r x0 y0 st n"]
  show ?case by simp
qed

lemma visit_dir_break:
  "\<not> sc_break st \<Longrightarrow> PassedAll (sc_rg st) 200000 \<Longrightarrow>
   sc_break (visit_dir r x0 y0 st (x, y)) \<longleftrightarrow>
     (mat_at (dir_passedBy (sc_rg st)) x y = 0 \<and> distance_dir (sc_rg st) x y x0 y0 < sc_var st)"
proof -
  assume a: "\<not> sc_break st" "PassedAll (sc_rg st) 200000"
  have "PassedAll (dtouch x y (dtouch x0 y0 (dtouch x y (sc_rg st)))) 200000" using a by simp
  then show ?thesis using a
    by (simp add: visit_dir_def Let_def) (simp add: dtouch_def distance_dir_def)
qed

text \<open>
  C7, as the program has it: \<open>PassedAll\<close> is tested only when a neighbour is unlabelled
  and passes the similarity test. Once the predicate holds after \<open>k\<close> neighbours of a
  popped pixel, no later neighbour of that pixel is labelled or pushed (the label map and
  the stack after \<open>k + j\<close> neighbours are those after \<open>k\<close>), and the pass for a further
  neighbour \<open>(x, y)\<close> breaks exactly when that neighbour is unlabelled and passes the
  similarity test; a neighbour that is labelled or fails the test is examined and the
  loop goes on.
\<close>

theorem no_growth_once_passed_all:
  "PassedAll (sc_rg (scan_upto rg x0 y0 k)) 200000 \<Longrightarrow>
   dir_passedBy (sc_rg (scan_upto rg x0 y0 (k + j))) = dir_passedBy (sc_rg (scan_upto rg x0 y0 k)) \<and>
   dir_stack (sc_rg (scan_upto rg x0 y0 (k + j))) = dir_stack (sc_rg (scan_upto rg x0 y0 k)) \<and>
   (\<not> sc_break (scan_upto rg x0 y0 k) \<longrightarrow>
      sc_break (visit_dir r x0 y0 (scan_upto rg x0 y0 k) (x, y)) =
        (mat_at (dir_passedBy (sc_rg (scan_upto rg x0 y0 k))) x y = 0 \<and>
         distance_dir (sc_rg (scan_upto rg x0 y0 k)) x y x0 y0 < sc_var (scan_upto rg x0 y0 k)))"
  using foldl_visit_dir_stopped[of "scan_upto rg x0 y0 k"] visit_dir_break[of "scan_upto rg x0 y0 k"]
  by (simp add: scan_upto_add)

theorem no_growth_once_passed_all_witness:
  "PassedAll (sc_rg (scan_upto (second_pop ex_flat3 10 0 2) 0 1 1)) 200000 \<and>
   \<not> sc_break (scan_upto (second_pop ex_flat3 10 0 2) 0 1 1) \<and>
   dir_passedBy (sc_rg (scan_upto (second_pop ex_flat3 10 0 2) 0 1 (1 + 1))) =
     dir_passedBy (sc_rg (scan_upto (second_pop ex_flat3 10 0 2) 0 1 1)) \<and>
   dir_stack (sc_rg (scan_upto (second_pop ex_flat3 10 0 2) 0 1 (1 + 1))) =
     dir_stack (sc_rg (scan_upto (second_pop ex_flat3 10 0 2) 0 1 1)) \<and>
   \<not> sc_break (visit_dir 1 0 1 (scan_upto (second_pop ex_flat3 10 0 2) 0 1 1) (0, 2))"
proof -
  let ?st = "scan_upto (second_pop ex_flat3 10 0 2) 0 1 1"
  have h: "PassedAll (sc_rg ?st) 200000" by code_simp
  have b: "\<not> sc_break ?st" by code_simp
  have l: "mat_at (dir_passedBy (sc_rg ?st)) 0 2 \<noteq> 0" by code_simp
  from no_growth_once_passed_all[OF h, of 1 1 0 2] h b l show ?thesis by simp
qed

text \<open>
  The claim as the spec states it (the scan of the remaining neighbours is abandoned at
  once) fails on the row of three equal pixels with threshold 10 and seed \<open>(0, 2)\<close>. The
  second pixel popped is \<open>(0, 1)\<close>, with the neighbours \<open>(0, 0)\<close> and \<open>(0, 2)\<close>. Admitting
  \<open>(0, 0)\<close> labels the last pixel, so \<open>PassedAll\<close> holds after one neighbour; the loop
  still goes on to \<open>(0, 2)\<close>, reads its label (the read is the newest entry of the
  history) and ends without a break.
\<close>

theorem scan_not_abandoned_counterexample:
  "getNeighbour (second_pop ex_flat3 10 0 2) 0 1 = [(0, 0), (0, 2)] \<and>
   \<not> PassedAll (sc_rg (scan_upto (second_pop ex_flat3 10 0 2) 0 1 0)) 200000 \<and>
   PassedAll (sc_rg (scan_upto (second_pop ex_flat3 10 0 2) 0 1 1)) 200000 \<and>
   dir_touched (sc_rg (scan_upto (second_pop ex_flat3 10 0 2) 0 1 2)) =
     (0, 2) # dir_touched (sc_rg (scan_upto (second_pop ex_flat3 10 0 2) 0 1 1)) \<and>
   \<not> sc_break (scan_upto (second_pop ex_flat3 10 0 2) 0 1 2)"
  by code_simp

section \<open>The exhaustive pass of the fixed-threshold program\<close>

subsection \<open>The stack as a list of pairs\<close>

lemma stack_ok_init: "0 < c \<Longrightarrow> stack_ok (initStack c) \<and> stack_items (initStack c) = []"
  by (simp add: stack_ok_def stack_items_def initStack_def malloc_def)

lemma take_Suc_update: "n < length xs \<Longrightarrow> take (Suc n) (xs[n := a]) = take n xs @ [a]"
  by (simp add: take_Suc_conv_app_nth)

lemma push_ok:
  assumes "stack_ok s"
  shows "stack_ok (push s a b) \<and> stack_items (push s a b) = stack_items s @ [(a, b)] \<and>
         stack_size (push s a b) = stack_size s + 1"
proof (cases "stack_size s = stack_capacity s")
  case True
  let ?n = "nat (stack_capacity s)"
  have len: "length (stack_x s) = ?n" "length (stack_y s) = ?n" "0 < stack_capacity s"
    using assms by (simp_all add: stack_ok_def)
  have n2: "nat (stack_capacity s * 2) = ?n + ?n" using len(3) by simp
  have rx: "realloc (stack_x s) (stack_capacity s * 2) = stack_x s @ replicate ?n 0"
    and ry: "realloc (stack_y s) (stack_capacity s * 2) = stack_y s @ replicate ?n 0"
    using len by (simp_all add: realloc_def n2)
  have sz: "nat (stack_size s) = ?n" using True by simp
  have upd: "\<And>xs v. length xs = ?n \<Longrightarrow> take (Suc ?n) ((xs @ replicate ?n 0)[?n := v]) = xs @ [v]"
    using len(3) by (simp add: list_update_append take_Suc_conv_app_nth)
  have nS: "nat (stack_capacity s + 1) = Suc ?n" using len(3) by simp
  show ?thesis using True len
    by (simp add: push_def stack_ok_def stack_items_def rx ry Let_def sz upd nS)
next
  case False
  let ?k = "nat (stack_size s)"
  have k: "?k < length (stack_x s)" "?k < length (stack_y s)" "0 \<le> stack_size s"
    using assms False by (simp_all add: stack_ok_def)
  have nS: "nat (stack_size s + 1) = Suc ?k" using k(3) by simp
  show ?thesis using False k assms
    by (simp add: push_def stack_ok_def stack_items_def Let_def nS take_Suc_update)
qed

lemma pop_ok:
  assumes "stack_ok s" "0 < stack_size s"
  shows "stack_ok (fst (pop s out)) \<and> stack_items (fst (pop s out)) = butlast (stack_items s) \<and>
         snd (pop s out) = last (stack_items s) \<and> stack_items s \<noteq> [] \<and>
         stack_size (fst (pop s out)) = stack_size s - 1"
proof -
  let ?k = "nat (stack_size s - 1)"
  have k: "nat (stack_size s) = Suc ?k" using assms(2) by simp
  have len: "?k < length (stack_x s)" "?k < length (stack_y s)"
    using assms by (simp_all add: stack_ok_def)
  have tx: "take (Suc ?k) (stack_x s) = take ?k (stack_x s) @ [stack_x s ! ?k]"
    and ty: "take (Suc ?k) (stack_y s) = take ?k (stack_y s) @ [stack_y s ! ?k]"
    using len by (simp_all add: take_Suc_conv_app_nth)
  show ?thesis using assms len
    by (simp add: pop_def Let_def stack_ok_def stack_items_def k tx ty)
qed

lemma isEmpty_items: "stack_ok s \<Longrightarrow> isEmpty s \<longleftrightarrow> stack_items s = []"
  by (auto simp: isEmpty_def stack_ok_def stack_items_def)

lemma size_items: "stack_ok s \<Longrightarrow> length (stack_items s) = nat (stack_size s)"
  by (auto simp add: stack_ok_def stack_items_def)

subsection \<open>Cells and indices\<close>

lemma cell_index_less:
  fixes x y h w :: int
  assumes "0 \<le> x" "x < h" "0 \<le> y" "y < w"
  shows "x * w + y < h * w"
proof -
  have "x + 1 \<le> h" using assms by simp
  then have "(x + 1) * w \<le> h * w" using assms by (intro mult_right_mono) simp_all
  then show ?thesis using assms by (simp add: algebra_simps)
qed

lemma idx_less: "boundaries rg x y \<Longrightarrow> idx rg x y < nat (rg_h rg * rg_w rg)"
  unfolding boundaries_def idx_def
  using cell_index_less[of x "rg_h rg" y "rg_w rg"] by (simp add: nat_less_iff)

lemma cell_index_inj:
  fixes x y x' y' w :: int
  assumes "0 \<le> y" "y < w" "0 \<le> y'" "y' < w" "x * w + y = x' * w + y'"
  shows "x = x' \<and> y = y'"
proof -
  have "(x * w + y) div w = x" "(x' * w + y') div w = x'" using assms(1-4) by auto
  with assms(5) have "x = x'" by simp
  with assms(5) show ?thesis by simp
qed

lemma idx_inj:
  assumes "boundaries rg x y" "boundaries rg x' y'" "idx rg x y = idx rg x' y'"
  shows "x = x' \<and> y = y'"
proof -
  have "0 \<le> x * rg_w rg + y" "0 \<le> x' * rg_w rg + y'"
    using assms(1,2) by (simp_all add: boundaries_def)
  with assms(3) have "x * rg_w rg + y = x' * rg_w rg + y'" by (simp add: idx_def)
  with assms(1,2) show ?thesis using cell_index_inj[of y "rg_w rg" y' x x'] by (simp add: boundaries_def)
qed

lemma idx_cell:
  assumes "i < nat (rg_h rg * rg_w rg)" "0 \<le> rg_h rg" "0 \<le> rg_w rg"
  shows "boundaries rg (int i div rg_w rg) (int i mod rg_w rg) \<and>
         idx rg (int i div rg_w rg) (int i mod rg_w rg) = i"
proof -
  have w: "0 < rg_w rg" using assms by (cases "rg_w rg = 0") auto
  have "int i < rg_h rg * rg_w rg" using assms by simp
  note lt = this
  have "int i div rg_w rg < rg_h rg"
  proof (rule ccontr)
    assume "\<not> int i div rg_w rg < rg_h rg"
    then have "rg_h rg * rg_w rg \<le> (int i div rg_w rg) * rg_w rg"
      using w by (intro mult_right_mono) simp_all
    also have "\<dots> \<le> int i"
      using div_mult_mod_eq[of "int i" "rg_w rg"] pos_mod_sign[OF w, of "int i"] by linarith
    finally show False using \<open>int i < rg_h rg * rg_w rg\<close> by simp
  qed
  moreover have "0 \<le> int i div rg_w rg" using w by (simp add: pos_imp_zdiv_nonneg_iff)
  ultimately show ?thesis using w by (simp add: boundaries_def idx_def)
qed

subsection \<open>The effect of one pass of the loop body\<close>

lemma visit_effect:
  "\<exists>N. set N \<subseteq> {(x, y), (x + i, y + j)} \<and> (N \<noteq> [] \<longrightarrow> boundaries rg (x + i) (y + j)) \<and>
     (visit var k x y rg (i, j) = rg\<lparr>rg_touched := N @ rg_touched rg\<rparr> \<or>
      (boundaries rg (x + i) (y + j) \<and> (i, j) \<noteq> (0, 0) \<and>
       rg_passedBy rg ! idx rg (x + i) (y + j) = 0 \<and>
       distance (mat_at (rg_im rg) x y) (mat_at (rg_im rg) (x + i) (y + j)) < var \<and>
       visit var k x y rg (i, j) = (admit k (x + i) (y + j) rg)\<lparr>rg_touched := N @ rg_touched rg\<rparr>))"
proof -
  let ?n = "(x + i, y + j)"
  consider (centre) "i = 0 \<and> j = 0" | (out) "\<not> (i = 0 \<and> j = 0)" "\<not> boundaries rg (x + i) (y + j)"
    | (labelled) "\<not> (i = 0 \<and> j = 0)" "boundaries rg (x + i) (y + j)" "rg_passedBy rg ! idx rg (x + i) (y + j) \<noteq> 0"
    | (far) "\<not> (i = 0 \<and> j = 0)" "boundaries rg (x + i) (y + j)" "rg_passedBy rg ! idx rg (x + i) (y + j) = 0"
        "\<not> distance (mat_at (rg_im rg) x y) (mat_at (rg_im rg) (x + i) (y + j)) < var"
    | (near) "\<not> (i = 0 \<and> j = 0)" "boundaries rg (x + i) (y + j)" "rg_passedBy rg ! idx rg (x + i) (y + j) = 0"
        "distance (mat_at (rg_im rg) x y) (mat_at (rg_im rg) (x + i) (y + j)) < var"
    by blast
  then show ?thesis
  proof cases
    case centre
    then show ?thesis by (intro exI[of _ "[]"]) (simp add: visit_def)
  next
    case out
    then have c: "(i = 0 \<and> j = 0) = False" by simp
    from out show ?thesis by (intro exI[of _ "[]"]) (simp add: visit_def Let_def c)
  next
    case labelled
    then have c: "(i = 0 \<and> j = 0) = False" by simp
    from labelled show ?thesis
      by (intro exI[of _ "[?n]"]) (simp add: visit_def Let_def touch_def idx_def c)
  next
    case far
    then have c: "(i = 0 \<and> j = 0) = False" by simp
    from far show ?thesis
      by (intro exI[of _ "[?n, (x, y), ?n]"]) (simp add: visit_def Let_def touch_def idx_def c)
  next
    case near
    then have c: "(i = 0 \<and> j = 0) = False" by simp
    from near show ?thesis
      by (intro exI[of _ "[?n, ?n, (x, y), ?n]"])
        (simp add: visit_def Let_def touch_def idx_def admit_def c)
  qed
qed

subsection \<open>The while loop of BFS\<close>

lemma inside_upd [simp]:
  "inside (rg\<lparr>rg_touched := T\<rparr>) = inside rg"
  "inside (rg\<lparr>rg_stack := st\<rparr>) = inside rg"
  "inside (rg\<lparr>rg_iterations := n\<rparr>) = inside rg"
  "inside (rg\<lparr>rg_passedBy := pb\<rparr>) = inside rg"
  by (simp_all add: inside_def boundaries_def fun_eq_iff)

lemma label_upd [simp]:
  "label (rg\<lparr>rg_touched := T\<rparr>) = label rg"
  "label (rg\<lparr>rg_stack := st\<rparr>) = label rg"
  "label (rg\<lparr>rg_iterations := n\<rparr>) = label rg"
  by (simp_all add: label_def idx_def fun_eq_iff)

lemma filter_zero_update:
  assumes "i < length xs" "xs ! i = (0::int)" "k \<noteq> 0"
  shows "Suc (length (filter (\<lambda>v. v = 0) (xs[i := k]))) = length (filter (\<lambda>v. v = 0) xs)"
proof -
  have a: "xs[i := k] = take i xs @ k # drop (Suc i) xs" using assms(1) by (rule upd_conv_take_nth_drop)
  have b: "xs = take i xs @ xs ! i # drop (Suc i) xs" using assms(1) by (rule id_take_nth_drop)
  have "length (filter (\<lambda>v. v = 0) xs) =
        length (filter (\<lambda>v. v = 0) (take i xs @ xs ! i # drop (Suc i) xs))" using b by simp
  then show ?thesis using assms(2,3) by (simp add: a)
qed

lemma admit_growing:
  assumes g: "growing k rg" and n: "inside rg n" "label rg n = 0"
  shows "growing k (admit k (fst n) (snd n) rg) \<and> Suc (fuel (admit k (fst n) (snd n) rg)) = fuel rg"
proof -
  let ?m = "idx rg (fst n) (snd n)"
  let ?rg' = "admit k (fst n) (snd n) rg"
  from g have grid: "grid_ok rg" and st: "stack_ok (rg_stack rg)" and k: "k \<noteq> 0"
    and items: "list_all (\<lambda>p. inside rg p \<and> label rg p = k) (stack_items (rg_stack rg))"
    and tch: "list_all (inside rg) (rg_touched rg)"
    by (simp_all add: growing_def)
  have m: "?m < length (rg_passedBy rg)"
    using idx_less[of rg "fst n" "snd n"] n(1) grid by (simp add: inside_def grid_ok_def)
  have ins: "inside ?rg' = inside rg" by (simp add: admit_def)
  have lab_n: "label ?rg' n = k" using m by (simp add: admit_def label_def idx_def)
  have lab_old: "label ?rg' p = k" if "inside rg p" "label rg p = k" for p
  proof -
    have "idx rg (fst p) (snd p) \<noteq> ?m" using that n(2) k by (auto simp: label_def)
    then show ?thesis using that by (simp add: admit_def label_def idx_def)
  qed
  from push_ok[OF st, of "fst n" "snd n"]
  have p: "stack_ok (rg_stack ?rg')" "stack_items (rg_stack ?rg') = stack_items (rg_stack rg) @ [n]"
    by (simp_all add: admit_def)
  have "list_all (\<lambda>p. inside ?rg' p \<and> label ?rg' p = k) (stack_items (rg_stack ?rg'))"
    using items n(1) lab_n lab_old by (auto simp: p ins list_all_iff)
  moreover have "grid_ok ?rg'" using grid by (simp add: grid_ok_def admit_def)
  moreover have "list_all (inside ?rg') (rg_touched ?rg')" using tch by (simp add: ins) (simp add: admit_def)
  moreover have "Suc (fuel ?rg') = fuel rg"
    using filter_zero_update[OF m _ k] n(2) by (simp add: fuel_def p) (simp add: admit_def label_def)
  ultimately show ?thesis using p(1) k by (simp add: growing_def)
qed

lemma preserved_other:
  assumes "preserved var k Q"
  shows "Q (rg\<lparr>rg_touched := T\<rparr>) = Q rg" "Q (rg\<lparr>rg_stack := st\<rparr>) = Q rg"
    "Q (rg\<lparr>rg_iterations := n\<rparr>) = Q rg"
proof -
  from assms have o: "\<And>rg st n T. Q (rg\<lparr>rg_stack := st, rg_iterations := n, rg_touched := T\<rparr>) = Q rg"
    by (simp add: preserved_def)
  from o[where rg = rg and st = "rg_stack rg" and n = "rg_iterations rg" and T = T] show "Q (rg\<lparr>rg_touched := T\<rparr>) = Q rg" by simp
  from o[where rg = rg and st = st and n = "rg_iterations rg" and T = "rg_touched rg"] show "Q (rg\<lparr>rg_stack := st\<rparr>) = Q rg" by simp
  from o[where rg = rg and st = "rg_stack rg" and n = n and T = "rg_touched rg"] show "Q (rg\<lparr>rg_iterations := n\<rparr>) = Q rg" by simp
qed

lemma preserved_admit:
  assumes "preserved var k Q" "growing k rg" "Q rg" "inside rg p" "label rg p = k" "inside rg n"
    "adjacent p n" "label rg n = 0" "distance (pix rg p) (pix rg n) < var"
  shows "Q (admit k (fst n) (snd n) rg)"
proof -
  from assms have "Q (relabel k n rg)" unfolding preserved_def by blast
  moreover have "admit k (fst n) (snd n) rg = (relabel k n rg)\<lparr>rg_stack := push (rg_stack rg) (fst n) (snd n)\<rparr>"
    by (simp add: admit_def relabel_def)
  ultimately show ?thesis using preserved_other(2)[OF assms(1)] by simp
qed

lemma growing_touched:
  "growing k (rg\<lparr>rg_touched := T\<rparr>) \<longleftrightarrow>
   growing k (rg\<lparr>rg_touched := []\<rparr>) \<and> list_all (inside rg) T"
  by (auto simp: growing_def grid_ok_def)

lemma growing_touched_app:
  "growing k rg \<Longrightarrow> list_all (inside rg) N \<Longrightarrow> growing k (rg\<lparr>rg_touched := N @ rg_touched rg\<rparr>)"
  by (auto simp: growing_def grid_ok_def)

lemma fuel_touched [simp]: "fuel (rg\<lparr>rg_touched := T\<rparr>) = fuel rg"
  by (simp add: fuel_def)

lemma visit_rule:
  assumes pr: "preserved var k Q" and g: "growing k rg" and q: "Q rg"
    and p: "inside rg (x, y)" "label rg (x, y) = k"
    and ij: "\<bar>i\<bar> \<le> 1" "\<bar>j\<bar> \<le> 1"
  shows "growing k (visit var k x y rg (i, j)) \<and> Q (visit var k x y rg (i, j)) \<and>
         label (visit var k x y rg (i, j)) (x, y) = k \<and>
         inside (visit var k x y rg (i, j)) = inside rg \<and>
         fuel (visit var k x y rg (i, j)) \<le> fuel rg"
proof -
  let ?n = "(x + i, y + j)"
  let ?v = "visit var k x y rg (i, j)"
  from visit_effect[of x y i j rg var k] obtain N where
    N: "set N \<subseteq> {(x, y), ?n}" "N \<noteq> [] \<longrightarrow> boundaries rg (x + i) (y + j)"
    and v: "?v = rg\<lparr>rg_touched := N @ rg_touched rg\<rparr> \<or>
      (boundaries rg (x + i) (y + j) \<and> (i, j) \<noteq> (0, 0) \<and>
       rg_passedBy rg ! idx rg (x + i) (y + j) = 0 \<and>
       distance (mat_at (rg_im rg) x y) (mat_at (rg_im rg) (x + i) (y + j)) < var \<and>
       ?v = (admit k (x + i) (y + j) rg)\<lparr>rg_touched := N @ rg_touched rg\<rparr>)"
    by blast
  have Nin: "list_all (inside rg) N"
    using N p(1) by (cases "N = []") (auto simp: list_all_iff inside_def)
  from v show ?thesis
  proof
    assume e: "?v = rg\<lparr>rg_touched := N @ rg_touched rg\<rparr>"
    show ?thesis unfolding e
      using growing_touched_app[OF g Nin] q p preserved_other(1)[OF pr] by simp
  next
    assume "boundaries rg (x + i) (y + j) \<and> (i, j) \<noteq> (0, 0) \<and>
       rg_passedBy rg ! idx rg (x + i) (y + j) = 0 \<and>
       distance (mat_at (rg_im rg) x y) (mat_at (rg_im rg) (x + i) (y + j)) < var \<and>
       ?v = (admit k (x + i) (y + j) rg)\<lparr>rg_touched := N @ rg_touched rg\<rparr>"
    then have n: "inside rg ?n" "label rg ?n = 0" "adjacent (x, y) ?n"
      "distance (pix rg (x, y)) (pix rg ?n) < var"
      and e: "?v = (admit k (x + i) (y + j) rg)\<lparr>rg_touched := N @ rg_touched rg\<rparr>"
      using ij by (auto simp: inside_def label_def adjacent_def pix_def)
    let ?a = "admit k (x + i) (y + j) rg"
    from admit_growing[OF g n(1,2)] have ga: "growing k ?a" and fa: "Suc (fuel ?a) = fuel rg" by simp_all
    have ia: "inside ?a = inside rg" by (simp add: admit_def)
    have ta: "rg_touched ?a = rg_touched rg" by (simp add: admit_def)
    from preserved_admit[OF pr g q p n(1,3,2,4)] have qa: "Q ?a" by simp
    have k: "k \<noteq> 0" using g by (simp add: growing_def)
    have "idx rg x y \<noteq> idx rg (x + i) (y + j)" using p(2) n(2) k by (auto simp: label_def)
    then have la: "label ?a (x, y) = k" using p(2) by (simp add: admit_def label_def idx_def)
    have "growing k (?a\<lparr>rg_touched := N @ rg_touched ?a\<rparr>)"
      using growing_touched_app[OF ga, of N] Nin by (simp add: ia)
    then show ?thesis unfolding e
      using qa la fa preserved_other(1)[OF pr] by (simp add: ta ia)
  qed
qed

lemma offsets_small: "ij \<in> set offsets \<Longrightarrow> \<bar>fst ij\<bar> \<le> 1 \<and> \<bar>snd ij\<bar> \<le> 1"
  by (auto simp: offsets_def)

lemma scan_rule:
  assumes pr: "preserved var k Q"
  shows "growing k rg \<Longrightarrow> Q rg \<Longrightarrow> inside rg (x, y) \<Longrightarrow> label rg (x, y) = k \<Longrightarrow>
     \<forall>ij \<in> set os. \<bar>fst ij\<bar> \<le> 1 \<and> \<bar>snd ij\<bar> \<le> 1 \<Longrightarrow>
     growing k (foldl (visit var k x y) rg os) \<and> Q (foldl (visit var k x y) rg os) \<and>
     fuel (foldl (visit var k x y) rg os) \<le> fuel rg"
proof (induction os arbitrary: rg)
  case Nil
  then show ?case by simp
next
  case (Cons ij os)
  obtain i j where ij: "ij = (i, j)" by (cases ij)
  from Cons.prems(5) have small: "\<bar>i\<bar> \<le> 1" "\<bar>j\<bar> \<le> 1" by (simp_all add: ij)
  let ?v = "visit var k x y rg (i, j)"
  from visit_rule[OF pr Cons.prems(1,2,3,4) small]
  have v: "growing k ?v" "Q ?v" "label ?v (x, y) = k" "inside ?v = inside rg" "fuel ?v \<le> fuel rg"
    by simp_all
  from Cons.prems(3) v(4) have "inside ?v (x, y)" by simp
  from Cons.IH[OF v(1,2) this v(3)] Cons.prems(5) v(5) show ?case by (simp add: ij)
qed

lemma BFS_iter_rule:
  assumes pr: "preserved var k Q" and g: "growing k rg" and q: "Q rg"
    and ne: "\<not> isEmpty (rg_stack rg)"
  shows "growing k (fst (BFS_iter var k (rg, x, y))) \<and> Q (fst (BFS_iter var k (rg, x, y))) \<and>
         fuel (fst (BFS_iter var k (rg, x, y))) < fuel rg"
proof -
  from g have st: "stack_ok (rg_stack rg)" by (simp add: growing_def)
  with ne have pos: "0 < stack_size (rg_stack rg)" by (simp add: isEmpty_def stack_ok_def)
  obtain st' a b where pp: "pop (rg_stack rg) (x, y) = (st', (a, b))"
    by (cases "pop (rg_stack rg) (x, y)") auto
  from pop_ok[OF st pos, of "(x, y)"] pp
  have p: "stack_ok st'" "stack_items st' = butlast (stack_items (rg_stack rg))"
    "(a, b) = last (stack_items (rg_stack rg))" "stack_items (rg_stack rg) \<noteq> []"
    by simp_all
  let ?rg1 = "rg\<lparr>rg_stack := st', rg_iterations := rg_iterations rg + 1\<rparr>"
  from g have all: "list_all (\<lambda>p. inside rg p \<and> label rg p = k) (stack_items (rg_stack rg))"
    by (simp add: growing_def)
  have top: "inside rg (a, b) \<and> label rg (a, b) = k"
    using all p(3,4) by (simp add: list_all_iff)
  have rest: "list_all (\<lambda>p. inside rg p \<and> label rg p = k) (butlast (stack_items (rg_stack rg)))"
    using all by (auto simp: list_all_iff dest: in_set_butlastD)
  have g1: "growing k ?rg1" using g p(1,2) rest by (simp add: growing_def grid_ok_def)
  have q1: "Q ?rg1" using q preserved_other(2,3)[OF pr] by simp
  have f1: "Suc (fuel ?rg1) = fuel rg" using p(2,4) by (simp add: fuel_def)
  have top1: "inside ?rg1 (a, b)" "label ?rg1 (a, b) = k" using top by simp_all
  have small: "\<forall>ij \<in> set offsets. \<bar>fst ij\<bar> \<le> 1 \<and> \<bar>snd ij\<bar> \<le> 1" using offsets_small by blast
  from scan_rule[OF pr g1 q1 top1 small] f1 show ?thesis
    by (simp add: pp scan8_def)
qed

lemma BFS_while_rule:
  assumes pr: "preserved var k Q"
  shows "growing k (fst s) \<Longrightarrow> Q (fst s) \<Longrightarrow>
     \<exists>rg'. BFS_while var k s = Some rg' \<and> growing k rg' \<and> Q rg' \<and> isEmpty (rg_stack rg')"
proof (induction "fuel (fst s)" arbitrary: s rule: less_induct)
  case less
  show ?case
  proof (cases "isEmpty (rg_stack (fst s))")
    case True
    with less.prems show ?thesis by (subst BFS_while.simps) simp
  next
    case False
    obtain rg x y where s: "s = (rg, x, y)" by (cases s)
    from BFS_iter_rule[OF pr, of rg x y] less.prems False
    have "growing k (fst (BFS_iter var k s))" "Q (fst (BFS_iter var k s))"
      "fuel (fst (BFS_iter var k s)) < fuel (fst s)" by (simp_all add: s)
    from less.hyps[OF this(3) this(1,2)] False show ?thesis
      by (subst BFS_while.simps) simp
  qed
qed

subsection \<open>Properties of the label map\<close>

lemma pix_upd [simp]:
  "pix (rg\<lparr>rg_touched := T\<rparr>) = pix rg"
  "pix (rg\<lparr>rg_stack := st\<rparr>) = pix rg"
  "pix (rg\<lparr>rg_iterations := n\<rparr>) = pix rg"
  "pix (rg\<lparr>rg_passedBy := pb\<rparr>) = pix rg"
  "pix (rg\<lparr>rg_currentRegion := c\<rparr>) = pix rg"
  by (simp_all add: pix_def fun_eq_iff)

lemma explained_upd [simp]:
  "explained (rg\<lparr>rg_touched := T\<rparr>) = explained rg"
  "explained (rg\<lparr>rg_stack := st\<rparr>) = explained rg"
  "explained (rg\<lparr>rg_iterations := n\<rparr>) = explained rg"
  by (simp_all add: explained_def is_first_def linked_def idx_def)

text \<open>Labelling one unlabelled cell \<open>n\<close> with \<open>k\<close>, seen cell by cell.\<close>

lemma relabel_label:
  assumes "grid_ok rg" "inside rg n" "inside rg q"
  shows "label (relabel k n rg) q = (if q = n then k else label rg q)"
proof (cases "q = n")
  case True
  have "idx rg (fst n) (snd n) < length (rg_passedBy rg)"
    using idx_less[of rg "fst n" "snd n"] assms(1,2) by (simp add: inside_def grid_ok_def)
  then show ?thesis using True by (simp add: relabel_def label_def idx_def)
next
  case False
  have "idx rg (fst q) (snd q) \<noteq> idx rg (fst n) (snd n)"
    using idx_inj[of rg "fst q" "snd q" "fst n" "snd n"] assms(2,3) False
    by (auto simp: inside_def prod_eq_iff)
  then show ?thesis using False by (simp add: relabel_def label_def idx_def)
qed

lemma relabel_frame [simp]:
  "inside (relabel k n rg) = inside rg" "pix (relabel k n rg) = pix rg"
  "rg_thresh (relabel k n rg) = rg_thresh rg" "idx (relabel k n rg) = idx rg"
  "rg_h (relabel k n rg) = rg_h rg" "rg_w (relabel k n rg) = rg_w rg" "rg_im (relabel k n rg) = rg_im rg"
  "rg_currentRegion (relabel k n rg) = rg_currentRegion rg"
  "rg_passedBy (relabel k n rg) = (rg_passedBy rg)[idx rg (fst n) (snd n) := k]"
  by (simp_all add: relabel_def idx_def fun_eq_iff)

lemma relabel_explained:
  assumes grid: "grid_ok rg" and k: "k \<noteq> 0"
    and n: "inside rg n" "label rg n = 0"
    and ex: "explained rg"
    and new: "is_first (relabel k n rg) n \<or> linked (relabel k n rg) n"
    and first: "\<And>q. inside rg q \<Longrightarrow> label rg q = k \<Longrightarrow> is_first rg q \<Longrightarrow>
                  idx rg (fst q) (snd q) < idx rg (fst n) (snd n)"
  shows "explained (relabel k n rg)"
  unfolding explained_def
proof (intro allI impI)
  fix q
  let ?rg' = "relabel k n rg"
  let ?m = "idx rg (fst n) (snd n)"
  assume a: "inside ?rg' q \<and> label ?rg' q \<noteq> 0"
  then have q: "inside rg q" by simp
  have lab: "\<And>r. inside rg r \<Longrightarrow> label ?rg' r = (if r = n then k else label rg r)"
    using relabel_label[OF grid n(1)] by simp
  show "is_first ?rg' q \<or> linked ?rg' q"
  proof (cases "q = n")
    case True
    with new show ?thesis by simp
  next
    case False
    with a lab[OF q] have lq: "label ?rg' q = label rg q" "label rg q \<noteq> 0" by simp_all
    from ex q lq(2) have "is_first rg q \<or> linked rg q" unfolding explained_def by blast
    then show ?thesis
    proof
      assume f: "is_first rg q"
      have "is_first ?rg' q" unfolding is_first_def
      proof (intro allI impI)
        fix i assume i: "i < idx ?rg' (fst q) (snd q)"
        then have i': "i < idx rg (fst q) (snd q)" by simp
        show "rg_passedBy ?rg' ! i \<noteq> label ?rg' q"
        proof (cases "i = ?m")
          case True
          have "label rg q \<noteq> k"
          proof
            assume "label rg q = k"
            from first[OF q this f] i' True show False by simp
          qed
          moreover have "?m < length (rg_passedBy rg)"
            using idx_less[of rg "fst n" "snd n"] grid n(1) by (simp add: inside_def grid_ok_def)
          ultimately show ?thesis using True lq by simp
        next
          case False
          then show ?thesis using f i' lq by (simp add: is_first_def)
        qed
      qed
      then show ?thesis ..
    next
      assume "linked rg q"
      then obtain r where r: "inside rg r" "adjacent r q" "label rg r = label rg q"
        "distance (pix rg r) (pix rg q) < rg_thresh rg" by (auto simp: linked_def)
      from r(3) lq(2) n(2) have "r \<noteq> n" by auto
      with lab[OF r(1)] have "label ?rg' r = label rg r" by simp
      with r lq have "linked ?rg' q" unfolding linked_def by (intro exI[of _ r]) simp
      then show ?thesis ..
    qed
  qed
qed

lemma seeded_inv_preserved: "preserved (rg_thresh rg0) k (seeded_inv rg0 s k)"
  unfolding preserved_def
proof (intro conjI allI impI)
  fix rg :: RegionGrow and st n T
  show "seeded_inv rg0 s k (rg\<lparr>rg_stack := st, rg_iterations := n, rg_touched := T\<rparr>) =
        seeded_inv rg0 s k rg"
    by (simp add: seeded_inv_def)
next
  fix rg :: RegionGrow and p n
  assume a: "growing k rg \<and> seeded_inv rg0 s k rg \<and> inside rg p \<and> label rg p = k \<and> inside rg n \<and>
     adjacent p n \<and> label rg n = 0 \<and> distance (pix rg p) (pix rg n) < rg_thresh rg0"
  let ?pb = "rg_passedBy rg"
  let ?m = "idx rg (fst n) (snd n)"
  let ?rg' = "relabel k n rg"
  from a have grid: "grid_ok rg" and k0: "k \<noteq> 0" by (simp_all add: growing_def)
  from a have si: "seeded_inv rg0 s k rg" and p: "inside rg p" "label rg p = k"
    and n: "inside rg n" "label rg n = 0" and adj: "adjacent p n"
    and d: "distance (pix rg p) (pix rg n) < rg_thresh rg0" by simp_all
  from si have fr: "rg_h rg = rg_h rg0" "rg_w rg = rg_w rg0" "rg_im rg = rg_im rg0"
    "rg_thresh rg = rg_thresh rg0" "rg_currentRegion rg = k" "0 < k"
    and before: "\<forall>i < s. ?pb ! i \<noteq> 0 \<and> ?pb ! i \<noteq> k" and seed: "?pb ! s = k"
    and range: "\<forall>v\<in>set ?pb. 0 \<le> v \<and> v \<le> k"
    and all: "\<forall>j. 1 \<le> j \<and> j \<le> k \<longrightarrow> j \<in> set ?pb"
    and ex: "explained rg"
    by (simp_all add: seeded_inv_def)
  have m: "?m < length ?pb"
    using idx_less[of rg "fst n" "snd n"] grid n(1) by (simp add: inside_def grid_ok_def)
  have m0: "?pb ! ?m = 0" using n(2) by (simp add: label_def)
  have sm: "s < ?m"
  proof -
    have "\<not> ?m < s" using before m0 by auto
    moreover have "?m \<noteq> s" using seed m0 k0 by auto
    ultimately show ?thesis by simp
  qed
  have b': "\<forall>i < s. ?pb[?m := k] ! i \<noteq> 0 \<and> ?pb[?m := k] ! i \<noteq> k"
    using before sm by simp
  have s': "?pb[?m := k] ! s = k" using seed sm by simp
  have r': "\<forall>v\<in>set (?pb[?m := k]). 0 \<le> v \<and> v \<le> k"
    using range fr(6) set_update_subset_insert[of ?pb ?m k] by auto
  have a': "\<forall>j. 1 \<le> j \<and> j \<le> k \<longrightarrow> j \<in> set (?pb[?m := k])"
  proof (intro allI impI)
    fix j assume j: "1 \<le> j \<and> j \<le> k"
    with all have "j \<in> set ?pb" by simp
    then obtain i where i: "i < length ?pb" "?pb ! i = j" by (auto simp: in_set_conv_nth)
    with j m0 have "i \<noteq> ?m" by auto
    with i have "i < length (?pb[?m := k])" "?pb[?m := k] ! i = j" by simp_all
    then show "j \<in> set (?pb[?m := k])" by (auto simp: in_set_conv_nth)
  qed
  have pn: "p \<noteq> n" using p(2) n(2) k0 by auto
  have lab: "\<And>r. inside rg r \<Longrightarrow> label ?rg' r = (if r = n then k else label rg r)"
    using relabel_label[OF grid n(1)] by simp
  have "linked ?rg' n" unfolding linked_def
    using p n(1) adj d pn lab[OF p(1)] lab[OF n(1)] fr(4) by (intro exI[of _ p]) simp
  then have new: "is_first ?rg' n \<or> linked ?rg' n" ..
  have first: "idx rg (fst q) (snd q) < ?m" if "inside rg q" "label rg q = k" "is_first rg q" for q
  proof -
    have "\<not> s < idx rg (fst q) (snd q)" using that(2,3) seed by (auto simp: is_first_def)
    with sm show ?thesis by simp
  qed
  from relabel_explained[OF grid k0 n ex new first] have e': "explained ?rg'" .
  show "seeded_inv rg0 s k ?rg'"
    using fr b' s' r' a' e' by (simp add: seeded_inv_def)
qed

subsection \<open>The loops over the cells\<close>

lemma grow_cell_eq:
  "grow_cell rg c =
     (if label rg c \<noteq> 0 then Some (rg\<lparr>rg_touched := c # rg_touched rg\<rparr>)
      else BFS_while (rg_thresh rg) (label (seeded rg c) c) (seeded rg c, 0, 0))"
  by (cases c) (simp add: grow_cell_def BFS_def Let_def touch_def label_def idx_def seeded_def)

lemma explained_currentRegion [simp]: "explained (rg\<lparr>rg_currentRegion := c\<rparr>) = explained rg"
  by (simp add: explained_def is_first_def linked_def idx_def label_def inside_def boundaries_def)

lemma grow_cell_rule:
  assumes inv: "pass_inv rg0 n rg" and c: "inside rg c" "idx rg (fst c) (snd c) = n"
  shows "\<exists>rg'. grow_cell rg c = Some rg' \<and> pass_inv rg0 (Suc n) rg'"
proof (cases "label rg c = 0")
  case False
  have "pass_inv rg0 (Suc n) (rg\<lparr>rg_touched := c # rg_touched rg\<rparr>)"
    using inv c False
    by (auto simp add: pass_inv_def grid_ok_def label_def less_Suc_eq)
  with False show ?thesis by (simp add: grow_cell_eq)
next
  case True
  let ?pb = "rg_passedBy rg"
  let ?k = "rg_currentRegion rg + 1"
  let ?s = "seeded rg c"
  from inv have grid: "grid_ok rg" and st: "stack_ok (rg_stack rg)"
    and items: "stack_items (rg_stack rg) = []" and tch: "list_all (inside rg) (rg_touched rg)"
    and fr: "rg_h rg = rg_h rg0" "rg_w rg = rg_w rg0" "rg_im rg = rg_im rg0" "rg_thresh rg = rg_thresh rg0"
    and c0: "0 \<le> rg_currentRegion rg" and before: "\<forall>i < n. ?pb ! i \<noteq> 0"
    and range: "\<forall>v\<in>set ?pb. 0 \<le> v \<and> v \<le> rg_currentRegion rg"
    and all: "\<forall>j. 1 \<le> j \<and> j \<le> rg_currentRegion rg \<longrightarrow> j \<in> set ?pb"
    and ex: "explained rg"
    by (simp_all add: pass_inv_def)
  have n: "n < length ?pb"
    using idx_less[of rg "fst c" "snd c"] grid c by (simp add: inside_def grid_ok_def)
  have n0: "?pb ! n = 0" using True c(2) by (simp add: label_def)
  have k: "0 < ?k" "?k \<noteq> 0" using c0 by simp_all
  have ins: "inside ?s = inside rg" by (simp add: seeded_def inside_def boundaries_def fun_eq_iff)
  have lab_c: "label ?s c = ?k" using n c(2) by (simp add: seeded_def label_def idx_def)
  from push_ok[OF st, of "fst c" "snd c"] items
  have ps: "stack_ok (rg_stack ?s)" "stack_items (rg_stack ?s) = [c]" by (simp_all add: seeded_def)
  have g: "growing ?k ?s"
    using grid ps k c(1) lab_c tch
    by (simp add: growing_def ins) (simp add: seeded_def grid_ok_def)
  have small: "\<And>i. i < n \<Longrightarrow> ?pb ! i \<noteq> 0 \<and> ?pb ! i \<noteq> ?k"
  proof -
    fix i assume i: "i < n"
    then have "?pb ! i \<in> set ?pb" using n by simp
    with range have "?pb ! i \<le> rg_currentRegion rg" by blast
    with before i show "?pb ! i \<noteq> 0 \<and> ?pb ! i \<noteq> ?k" by simp
  qed
  have r': "\<forall>v\<in>set (?pb[n := ?k]). 0 \<le> v \<and> v \<le> ?k"
    using range c0 set_update_subset_insert[of ?pb n ?k] by fastforce
  have a': "\<forall>j. 1 \<le> j \<and> j \<le> ?k \<longrightarrow> j \<in> set (?pb[n := ?k])"
  proof (intro allI impI)
    fix j assume j: "1 \<le> j \<and> j \<le> ?k"
    show "j \<in> set (?pb[n := ?k])"
    proof (cases "j = ?k")
      case True
      then show ?thesis using n by (simp add: set_update_memI)
    next
      case False
      with j all have "j \<in> set ?pb" by simp
      then obtain i where i: "i < length ?pb" "?pb ! i = j" by (auto simp: in_set_conv_nth)
      with j n0 have "i \<noteq> n" by auto
      with i have "i < length (?pb[n := ?k])" "?pb[n := ?k] ! i = j" by simp_all
      then show ?thesis by (auto simp: in_set_conv_nth)
    qed
  qed
  let ?r = "relabel ?k c rg"
  have "is_first ?r c" using small c(2) n by (simp add: is_first_def label_def)
  then have new: "is_first ?r c \<or> linked ?r c" ..
  have first: "idx rg (fst q) (snd q) < idx rg (fst c) (snd c)"
    if "inside rg q" "label rg q = ?k" for q
  proof -
    have "idx rg (fst q) (snd q) < length ?pb"
      using idx_less[of rg "fst q" "snd q"] grid that(1) by (simp add: inside_def grid_ok_def)
    then have "label rg q \<in> set ?pb" by (simp add: label_def)
    with range that(2) show ?thesis by auto
  qed
  from relabel_explained[OF grid k(2) c(1) True ex new first] have "explained ?r" by simp
  moreover have "?s = ?r\<lparr>rg_currentRegion := ?k, rg_stack := push (rg_stack rg) (fst c) (snd c),
      rg_touched := [c, c, c] @ rg_touched rg\<rparr>"
    by (simp add: seeded_def relabel_def)
  ultimately have e': "explained ?s" by simp
  have si: "seeded_inv rg0 n ?k ?s"
    using fr k small r' a' e' n c(2)
    by (simp add: seeded_inv_def) (simp add: seeded_def)
  have th: "rg_thresh rg = rg_thresh rg0" by (rule fr(4))
  from BFS_while_rule[OF seeded_inv_preserved, of ?k "(?s, 0, 0)" rg0 n] g si
  obtain rg' where r: "BFS_while (rg_thresh rg0) ?k (?s, 0, 0) = Some rg'" "growing ?k rg'"
    "seeded_inv rg0 n ?k rg'" "isEmpty (rg_stack rg')" by auto
  have "pass_inv rg0 (Suc n) rg'"
    using r(2,3,4) isEmpty_items[of "rg_stack rg'"] k
    by (auto simp add: pass_inv_def growing_def seeded_inv_def less_Suc_eq)
  with r(1) True lab_c th show ?thesis by (simp add: grow_cell_eq)
qed

lemma for_cells_append: "for_cells r (as @ bs) = for_cells (for_cells r as) bs"
proof (induction as arbitrary: r)
  case Nil
  show ?case by (cases r) simp_all
next
  case (Cons a as)
  show ?case by (cases r) (simp_all add: Cons.IH)
qed

lemma for_cells_None [simp]: "for_cells None cs = None"
  by simp

lemma for_cells_one: "for_cells (Some rg) [c] = grow_cell rg c"
  by (cases "grow_cell rg c") simp_all

lemma row_rule:
  assumes x: "int x < rg_h rg0" and w: "W = nat (rg_w rg0)"
  shows "j \<le> W \<Longrightarrow> pass_inv rg0 (x * W) rg \<Longrightarrow>
     \<exists>rg'. for_cells (Some rg) (map (\<lambda>y0. (int x, int y0)) [0..<j]) = Some rg' \<and>
           pass_inv rg0 (x * W + j) rg'"
proof (induction j)
  case 0
  then show ?case by simp
next
  case (Suc j)
  from Suc obtain rg1 where r1: "for_cells (Some rg) (map (\<lambda>y0. (int x, int y0)) [0..<j]) = Some rg1"
    "pass_inv rg0 (x * W + j) rg1" by auto
  from r1(2) have fr: "rg_h rg1 = rg_h rg0" "rg_w rg1 = rg_w rg0" by (simp_all add: pass_inv_def)
  have jw: "int j < rg_w rg0" using Suc.prems(1) w by simp
  have ins: "inside rg1 (int x, int j)" using x jw by (simp add: inside_def boundaries_def fr)
  have "rg_w rg0 = int W" using jw w by simp
  then have "int x * rg_w rg0 + int j = int (x * W + j)" by simp
  then have ix: "idx rg1 (fst (int x, int j)) (snd (int x, int j)) = x * W + j"
    unfolding idx_def fr by (simp del: of_nat_add of_nat_mult)
  from grow_cell_rule[OF r1(2) ins ix] obtain rg' where
    "grow_cell rg1 (int x, int j) = Some rg'" "pass_inv rg0 (Suc (x * W + j)) rg'" by blast
  then show ?case using r1(1) by (simp add: for_cells_append for_cells_one)
qed

lemma rows_rule:
  assumes w: "W = nat (rg_w rg0)" and h: "rg_h rg = rg_h rg0" "rg_w rg = rg_w rg0"
  shows "int i \<le> rg_h rg0 \<Longrightarrow> pass_inv rg0 0 rg \<Longrightarrow>
     \<exists>rg'. for_cells (Some rg)
             (concat (map (\<lambda>x0. map (\<lambda>y0. (int x0, int y0)) [0..<W]) [0..<i])) = Some rg' \<and>
           pass_inv rg0 (i * W) rg'"
proof (induction i)
  case 0
  then show ?case by simp
next
  case (Suc i)
  from Suc obtain rg1 where r1:
    "for_cells (Some rg) (concat (map (\<lambda>x0. map (\<lambda>y0. (int x0, int y0)) [0..<W]) [0..<i])) = Some rg1"
    "pass_inv rg0 (i * W) rg1" by auto
  have "int i < rg_h rg0" using Suc.prems(1) by simp
  from row_rule[OF this w le_refl r1(2)] obtain rg' where
    "for_cells (Some rg1) (map (\<lambda>y0. (int i, int y0)) [0..<W]) = Some rg'"
    "pass_inv rg0 (i * W + W) rg'" by blast
  then show ?case using r1(1) by (simp add: for_cells_append add.commute)
qed

lemma pass_inv_init:
  assumes "valid_image img"
  shows "pass_inv (initRegionGrow img th) 0 (initRegionGrow img th)"
proof -
  let ?rg = "initRegionGrow img th"
  have lab: "label ?rg p = 0" if "inside ?rg p" for p
  proof -
    have "idx ?rg (fst p) (snd p) < nat (rg_h ?rg * rg_w ?rg)"
      using idx_less[of ?rg "fst p" "snd p"] that by (simp add: inside_def)
    then show ?thesis by (simp add: label_def initRegionGrow_def)
  qed
  then have "explained ?rg" unfolding explained_def by blast
  moreover have "stack_ok (rg_stack ?rg)" "stack_items (rg_stack ?rg) = []"
    using stack_ok_init[of 1000] by (simp_all add: initRegionGrow_def)
  ultimately show ?thesis using assms
    by (simp add: pass_inv_def grid_ok_def valid_image_def) (simp add: initRegionGrow_def)
qed

lemma ApplyRegionGrow_pass:
  assumes "valid_image img"
  shows "\<exists>rg'. ApplyRegionGrow (initRegionGrow img th) = Some rg' \<and>
     pass_inv (initRegionGrow img th) (nat (mat_rows img * mat_cols img)) rg'"
proof -
  let ?rg = "initRegionGrow img th"
  have hw: "rg_h ?rg = mat_rows img" "rg_w ?rg = mat_cols img" by (simp_all add: initRegionGrow_def)
  have nn: "0 \<le> mat_rows img" "0 \<le> mat_cols img" using assms by (simp_all add: valid_image_def)
  have "int (nat (rg_h ?rg)) \<le> rg_h ?rg" using nn hw by simp
  from rows_rule[OF refl refl refl this pass_inv_init[OF assms]]
  obtain rg' where r: "for_cells (Some ?rg)
      (concat (map (\<lambda>x0. map (\<lambda>y0. (int x0, int y0)) [0..<nat (rg_w ?rg)]) [0..<nat (rg_h ?rg)])) = Some rg'"
    "pass_inv ?rg (nat (rg_h ?rg) * nat (rg_w ?rg)) rg'" by blast
  have "nat (rg_h ?rg) * nat (rg_w ?rg) = nat (mat_rows img * mat_cols img)"
    using nn hw by (simp add: nat_mult_distrib)
  with r show ?thesis by (simp add: ApplyRegionGrow_def cells_def)
qed

subsection \<open>The label map of the exhaustive pass\<close>

lemma pass_inv_all_labelled:
  assumes "pass_inv rg0 (length (rg_passedBy rg)) rg"
  shows "\<forall>v \<in> set (rg_passedBy rg). v \<noteq> 0"
  using assms by (auto simp: pass_inv_def in_set_conv_nth)

lemma pass_inv_length:
  assumes "pass_inv (initRegionGrow img th) n rg"
  shows "length (rg_passedBy rg) = nat (mat_rows img * mat_cols img)"
  using assms by (simp add: pass_inv_def grid_ok_def initRegionGrow_def)

text \<open>
  C6: on every decoded image the exhaustive pass returns, and in the label map it returns
  no cell holds 0: the number of labelled cells is width times height.
\<close>

theorem exhaustive_completeness:
  assumes "valid_image img"
  shows "\<exists>rg'. ApplyRegionGrow (initRegionGrow img th) = Some rg' \<and>
     length (rg_passedBy rg') = nat (mat_rows img * mat_cols img) \<and>
     (\<forall>v \<in> set (rg_passedBy rg'). v \<noteq> 0) \<and>
     int (length (filter (\<lambda>v. v \<noteq> 0) (rg_passedBy rg'))) = mat_cols img * mat_rows img"
proof -
  from ApplyRegionGrow_pass[OF assms, of th] obtain rg' where
    r: "ApplyRegionGrow (initRegionGrow img th) = Some rg'"
    "pass_inv (initRegionGrow img th) (nat (mat_rows img * mat_cols img)) rg'" by blast
  have len: "length (rg_passedBy rg') = nat (mat_rows img * mat_cols img)"
    using r(2) by (rule pass_inv_length)
  with r(2) have nz: "\<forall>v \<in> set (rg_passedBy rg'). v \<noteq> 0"
    using pass_inv_all_labelled[of "initRegionGrow img th" rg'] by simp
  then have "filter (\<lambda>v. v \<noteq> 0) (rg_passedBy rg') = rg_passedBy rg'" by simp
  moreover have "0 \<le> mat_rows img * mat_cols img" using assms by (simp add: valid_image_def)
  ultimately have "int (length (filter (\<lambda>v. v \<noteq> 0) (rg_passedBy rg'))) = mat_cols img * mat_rows img"
    using len by (simp add: mult.commute)
  with r(1) len nz show ?thesis by blast
qed

theorem exhaustive_completeness_witness:
  "valid_image ex_ramp3 \<and>
   (\<exists>rg'. ApplyRegionGrow (initRegionGrow ex_ramp3 6) = Some rg' \<and>
     length (rg_passedBy rg') = 3 \<and> list_all (\<lambda>v. v \<noteq> 0) (rg_passedBy rg') \<and>
     length (filter (\<lambda>v. v \<noteq> 0) (rg_passedBy rg')) = 3)"
proof -
  have v: "valid_image ex_ramp3" by (simp add: valid_image_def ex_ramp3_def)
  from exhaustive_completeness[OF v, of 6] v show ?thesis
    by (simp add: ex_ramp3_def list_all_iff)
qed

text \<open>
  C1, as the program has it: \<open>BFS\<close> compares a neighbour with the pixel just popped, not
  with the seed of the region. In the label map the exhaustive pass returns, every pixel is
  labelled, and is either the first pixel of its region in row-major order (its seed) or
  has, among its eight neighbours, a pixel of the same region whose Euclidean colour
  distance to it is below the threshold.
\<close>

theorem admitted_near_parent:
  assumes "valid_image img"
  shows "\<exists>rg'. ApplyRegionGrow (initRegionGrow img th) = Some rg' \<and>
     rg_im rg' = img \<and> rg_thresh rg' = th \<and> rg_h rg' = mat_rows img \<and> rg_w rg' = mat_cols img \<and>
     (\<forall>p. inside rg' p \<longrightarrow> label rg' p \<noteq> 0 \<and> (is_first rg' p \<or> linked rg' p))"
proof -
  from ApplyRegionGrow_pass[OF assms, of th] obtain rg' where
    r: "ApplyRegionGrow (initRegionGrow img th) = Some rg'"
    "pass_inv (initRegionGrow img th) (nat (mat_rows img * mat_cols img)) rg'" by blast
  from r(2) have fr: "rg_im rg' = img" "rg_thresh rg' = th" "rg_h rg' = mat_rows img" "rg_w rg' = mat_cols img"
    by (simp_all add: pass_inv_def initRegionGrow_def)
  have lab: "label rg' p \<noteq> 0" if "inside rg' p" for p
  proof -
    have "idx rg' (fst p) (snd p) < nat (mat_rows img * mat_cols img)"
      using idx_less[of rg' "fst p" "snd p"] that fr by (simp add: inside_def)
    with r(2) show ?thesis by (simp add: pass_inv_def label_def)
  qed
  from r(2) have "explained rg'" by (simp add: pass_inv_def)
  with lab have "\<forall>p. inside rg' p \<longrightarrow> label rg' p \<noteq> 0 \<and> (is_first rg' p \<or> linked rg' p)"
    unfolding explained_def by blast
  with r(1) fr show ?thesis by blast
qed

theorem admitted_near_parent_witness:
  "valid_image ex_ramp3 \<and>
   (\<exists>rg'. ApplyRegionGrow (initRegionGrow ex_ramp3 6) = Some rg' \<and>
     rg_im rg' = ex_ramp3 \<and> rg_thresh rg' = 6 \<and>
     label rg' (0, 2) \<noteq> 0 \<and> (is_first rg' (0, 2) \<or> linked rg' (0, 2)))"
proof -
  have v: "valid_image ex_ramp3" by (simp add: valid_image_def ex_ramp3_def)
  from admitted_near_parent[OF v, of 6] obtain rg' where
    r: "ApplyRegionGrow (initRegionGrow ex_ramp3 6) = Some rg'"
    "rg_im rg' = ex_ramp3" "rg_thresh rg' = 6" "rg_h rg' = mat_rows ex_ramp3" "rg_w rg' = mat_cols ex_ramp3"
    "\<forall>p. inside rg' p \<longrightarrow> label rg' p \<noteq> 0 \<and> (is_first rg' p \<or> linked rg' p)" by blast
  have "inside rg' (0, 2)" using r(4,5) by (simp add: inside_def boundaries_def ex_ramp3_def)
  with r(6) have "label rg' (0, 2) \<noteq> 0 \<and> (is_first rg' (0, 2) \<or> linked rg' (0, 2))" by blast
  with v r(1,2,3) show ?thesis by blast
qed

text \<open>
  The claim as the spec states it (the distance to the seed of the region is below the
  threshold) fails on the row with red channel 0, 5, 10 and threshold 6: the pass grows one
  region from the seed \<open>(0, 0)\<close>, which holds \<open>(0, 2)\<close>, admitted from \<open>(0, 1)\<close> at
  distance 5, although its distance to the seed is 10.
\<close>

theorem seed_distance_counterexample:
  "map_option rg_passedBy (ApplyRegionGrow (initRegionGrow ex_ramp3 6)) = Some [1, 1, 1] \<and>
   map_option rg_currentRegion (ApplyRegionGrow (initRegionGrow ex_ramp3 6)) = Some 1 \<and>
   \<not> distance (mat_at ex_ramp3 0 2) (mat_at ex_ramp3 0 0) < 6 \<and>
   distance (mat_at ex_ramp3 0 2) (mat_at ex_ramp3 0 1) < 6"
  by code_simp

section \<open>The run of the adaptive program\<close>

subsection \<open>The while loop that empties the stack\<close>

lemma filter_update_other:
  assumes "\<not> P (xs ! i)" "\<not> P v"
  shows "length (filter P (xs[i := v])) = length (filter P xs)"
proof (cases "i < length xs")
  case True
  have a: "xs[i := v] = take i xs @ v # drop (Suc i) xs" using True by (rule upd_conv_take_nth_drop)
  have b: "xs = take i xs @ xs ! i # drop (Suc i) xs" using True by (rule id_take_nth_drop)
  have "length (filter P xs) = length (filter P (take i xs @ xs ! i # drop (Suc i) xs))"
    using b by simp
  then show ?thesis using assms by (simp add: a)
next
  case False
  then have "xs[i := v] = xs" by (intro list_update_beyond) simp
  then show ?thesis by simp
qed

lemma filter_update_gain:
  assumes "i < length xs" "\<not> P (xs ! i)" "P v"
  shows "length (filter P (xs[i := v])) = Suc (length (filter P xs))"
proof -
  have a: "xs[i := v] = take i xs @ v # drop (Suc i) xs" using assms(1) by (rule upd_conv_take_nth_drop)
  have b: "xs = take i xs @ xs ! i # drop (Suc i) xs" using assms(1) by (rule id_take_nth_drop)
  have "length (filter P xs) = length (filter P (take i xs @ xs ! i # drop (Suc i) xs))"
    using b by simp
  then show ?thesis using assms by (simp add: a)
qed

lemma filter_update_loss:
  assumes "i < length xs" "P (xs ! i)" "\<not> P v"
  shows "Suc (length (filter P (xs[i := v]))) = length (filter P xs)"
proof -
  have a: "xs[i := v] = take i xs @ v # drop (Suc i) xs" using assms(1) by (rule upd_conv_take_nth_drop)
  have b: "xs = take i xs @ xs ! i # drop (Suc i) xs" using assms(1) by (rule id_take_nth_drop)
  have "length (filter P xs) = length (filter P (take i xs @ xs ! i # drop (Suc i) xs))"
    using b by simp
  then show ?thesis using assms by (simp add: a)
qed

lemma dinside_upd [simp]:
  "dinside (rg\<lparr>dir_touched := T\<rparr>) = dinside rg"
  "dinside (rg\<lparr>dir_stack := st\<rparr>) = dinside rg"
  "dinside (rg\<lparr>dir_iterations := n\<rparr>) = dinside rg"
  "dinside (rg\<lparr>dir_passedBy := pb\<rparr>) = dinside rg"
  "dinside (rg\<lparr>dir_currentRegion := c\<rparr>) = dinside rg"
  by (simp_all add: dinside_def boundaries_dir_def fun_eq_iff)

lemma dlabel_upd [simp]:
  "dlabel (rg\<lparr>dir_touched := T\<rparr>) = dlabel rg"
  "dlabel (rg\<lparr>dir_stack := st\<rparr>) = dlabel rg"
  "dlabel (rg\<lparr>dir_iterations := n\<rparr>) = dlabel rg"
  "dlabel (rg\<lparr>dir_currentRegion := c\<rparr>) = dlabel rg"
  by (simp_all add: dlabel_def fun_eq_iff)

lemma region_size_upd [simp]:
  "region_size (rg\<lparr>dir_touched := T\<rparr>) = region_size rg"
  "region_size (rg\<lparr>dir_stack := st\<rparr>) = region_size rg"
  "region_size (rg\<lparr>dir_iterations := n\<rparr>) = region_size rg"
  "region_size (rg\<lparr>dir_currentRegion := c\<rparr>) = region_size rg"
  by (simp_all add: region_size_def fun_eq_iff)

lemma dcell_less:
  assumes "dgrid_ok rg" "dinside rg p"
  shows "nat (fst p * mat_cols (dir_passedBy rg) + snd p) < length (mat_data (dir_passedBy rg))"
  using assms cell_index_less[of "fst p" "dir_h rg" "snd p" "dir_w rg"]
  by (simp add: dgrid_ok_def dinside_def boundaries_dir_def nat_less_iff)

lemma dcell_inj:
  assumes "dgrid_ok rg" "dinside rg p" "dinside rg q"
    "nat (fst p * mat_cols (dir_passedBy rg) + snd p) = nat (fst q * mat_cols (dir_passedBy rg) + snd q)"
  shows "p = q"
proof -
  let ?w = "dir_w rg"
  have w: "mat_cols (dir_passedBy rg) = ?w" using assms(1) by (simp add: dgrid_ok_def)
  have "0 \<le> fst p * ?w + snd p" "0 \<le> fst q * ?w + snd q"
    using assms(2,3) by (simp_all add: dinside_def boundaries_dir_def)
  with assms(4) have "fst p * ?w + snd p = fst q * ?w + snd q" by (simp add: w)
  with assms(2,3) show ?thesis
    using cell_index_inj[of "snd p" ?w "snd q" "fst p" "fst q"]
    by (simp add: dinside_def boundaries_dir_def prod_eq_iff)
qed

lemma admit_dir_growing:
  assumes g: "growing_dir rg" and n: "dinside rg n" "dlabel rg n = 0"
  shows "growing_dir (admit_dir n rg) \<and> Suc (fuel_dir (admit_dir n rg)) = fuel_dir rg"
proof -
  let ?c = "dir_currentRegion rg"
  let ?pb = "dir_passedBy rg"
  let ?xs = "mat_data ?pb"
  let ?m = "nat (fst n * mat_cols ?pb + snd n)"
  let ?rg' = "admit_dir n rg"
  from g have grid: "dgrid_ok rg" and c: "1 \<le> ?c"
    and items: "list_all (\<lambda>p. dinside rg p \<and> dlabel rg p = ?c) (dir_stack rg)"
    and tch: "list_all (dinside rg) (dir_touched rg)"
    and range: "\<forall>v\<in>set ?xs. 0 \<le> v \<and> v \<le> ?c"
    and big: "\<forall>j. 1 \<le> j \<and> j < ?c \<longrightarrow> 64 \<le> region_size rg j"
    and one: "1 \<le> region_size rg ?c"
    by (simp_all add: growing_dir_def)
  have m: "?m < length ?xs" using dcell_less[OF grid n(1)] .
  have m0: "?xs ! ?m = 0" using n(2) by (simp add: dlabel_def mat_at_def)
  have data': "mat_data (dir_passedBy ?rg') = ?xs[?m := ?c]" "mat_cols (dir_passedBy ?rg') = mat_cols ?pb"
    "mat_rows (dir_passedBy ?rg') = mat_rows ?pb"
    by (simp_all add: admit_dir_def mat_set_def)
  have fr: "dir_h ?rg' = dir_h rg" "dir_w ?rg' = dir_w rg" "dir_currentRegion ?rg' = ?c"
    "dir_stack ?rg' = dir_stack rg @ [n]" "dir_touched ?rg' = dir_touched rg"
    by (simp_all add: admit_dir_def)
  have ins: "dinside ?rg' = dinside rg" by (simp add: admit_dir_def)
  have lab_n: "dlabel ?rg' n = ?c" using m by (simp add: dlabel_def mat_at_def data')
  have lab_old: "dlabel ?rg' p = ?c" if "dinside rg p" "dlabel rg p = ?c" for p
  proof -
    have "nat (fst p * mat_cols ?pb + snd p) \<noteq> ?m"
      using that(2) m0 c by (auto simp: dlabel_def mat_at_def)
    then show ?thesis using that(2) by (simp add: dlabel_def mat_at_def data')
  qed
  have g1: "dgrid_ok ?rg'" using grid by (simp add: dgrid_ok_def data' fr)
  have g2: "list_all (\<lambda>p. dinside ?rg' p \<and> dlabel ?rg' p = dir_currentRegion ?rg') (dir_stack ?rg')"
    using items n(1) lab_n lab_old by (auto simp: fr ins list_all_iff)
  have g3: "list_all (dinside ?rg') (dir_touched ?rg')" using tch by (simp add: fr ins)
  have g4: "\<forall>v\<in>set (mat_data (dir_passedBy ?rg')). 0 \<le> v \<and> v \<le> dir_currentRegion ?rg'"
    using range c set_update_subset_insert[of ?xs ?m ?c] by (fastforce simp: data' fr)
  have sz_other: "region_size ?rg' j = region_size rg j" if "1 \<le> j" "j < ?c" for j
    using that m0 filter_update_other[of "\<lambda>v. v = j" ?xs ?m ?c]
    by (simp add: region_size_def countNonZero_def data')
  have sz_c: "region_size ?rg' ?c = region_size rg ?c + 1"
    using m m0 c filter_update_gain[of ?m ?xs "\<lambda>v. v = ?c" ?c]
    by (simp add: region_size_def countNonZero_def data')
  have g5: "\<forall>j. 1 \<le> j \<and> j < dir_currentRegion ?rg' \<longrightarrow> 64 \<le> region_size ?rg' j"
    using big sz_other by (simp add: fr)
  have g6: "1 \<le> region_size ?rg' (dir_currentRegion ?rg')" using one sz_c by (simp add: fr)
  have f: "Suc (fuel_dir ?rg') = fuel_dir rg"
    using filter_update_loss[of ?m ?xs "\<lambda>v. v = 0" ?c] m m0 c
    by (simp add: fuel_dir_def data' fr)
  show ?thesis using g1 g2 g3 g4 g5 g6 c f unfolding growing_dir_def fr by simp
qed

lemma visit_dir_effect:
  assumes "r = dir_currentRegion (sc_rg st)"
  shows "\<exists>N. set N \<subseteq> {(x0, y0), (x, y)} \<and>
     (sc_rg (visit_dir r x0 y0 st (x, y)) = (sc_rg st)\<lparr>dir_touched := N @ dir_touched (sc_rg st)\<rparr> \<or>
      (dlabel (sc_rg st) (x, y) = 0 \<and>
       sc_rg (visit_dir r x0 y0 st (x, y)) =
         (admit_dir (x, y) (sc_rg st))\<lparr>dir_touched := N @ dir_touched (sc_rg st)\<rparr>))"
proof -
  let ?rg = "sc_rg st"
  let ?t2 = "dtouch x y (dtouch x0 y0 (dtouch x y ?rg))"
  consider (brk) "sc_break st"
    | (labelled) "\<not> sc_break st" "mat_at (dir_passedBy ?rg) x y \<noteq> 0"
    | (far) "\<not> sc_break st" "mat_at (dir_passedBy ?rg) x y = 0" "\<not> distance_dir ?rg x y x0 y0 < sc_var st"
    | (stop) "\<not> sc_break st" "mat_at (dir_passedBy ?rg) x y = 0" "distance_dir ?rg x y x0 y0 < sc_var st"
        "PassedAll ?rg 200000"
    | (near) "\<not> sc_break st" "mat_at (dir_passedBy ?rg) x y = 0" "distance_dir ?rg x y x0 y0 < sc_var st"
        "\<not> PassedAll ?rg 200000"
    by blast
  then show ?thesis
  proof cases
    case brk
    then show ?thesis by (intro exI[of _ "[]"]) (simp add: visit_dir_def)
  next
    case labelled
    then show ?thesis
      by (intro exI[of _ "[(x, y)]"]) (simp add: visit_dir_def Let_def dtouch_def)
  next
    case far
    then have "\<not> distance_dir ?t2 x y x0 y0 < sc_var st" by (simp add: distance_dir_def dtouch_def)
    with far show ?thesis
      by (intro exI[of _ "[(x, y), (x0, y0), (x, y)]"]) (simp add: visit_dir_def Let_def, simp add: dtouch_def)
  next
    case stop
    then have "distance_dir ?t2 x y x0 y0 < sc_var st" "PassedAll ?t2 200000"
      by (simp_all add: distance_dir_def) (simp add: dtouch_def)
    with stop show ?thesis
      by (intro exI[of _ "[(x, y), (x0, y0), (x, y)]"]) (simp add: visit_dir_def Let_def, simp add: dtouch_def)
  next
    case near
    then have "distance_dir ?t2 x y x0 y0 < sc_var st" "\<not> PassedAll ?t2 200000"
      by (simp_all add: distance_dir_def) (simp add: dtouch_def)
    with near assms show ?thesis
      by (intro exI[of _ "[(x, y), (x, y), (x, y), (x0, y0), (x, y)]"])
        (simp add: visit_dir_def Let_def dlabel_def, simp add: dtouch_def admit_dir_def push_dir_def)
  qed
qed

lemma growing_dir_touched_app:
  "growing_dir rg \<Longrightarrow> list_all (dinside rg) N \<Longrightarrow> growing_dir (rg\<lparr>dir_touched := N @ dir_touched rg\<rparr>)"
  by (auto simp: growing_dir_def dgrid_ok_def)

lemma fuel_dir_touched [simp]: "fuel_dir (rg\<lparr>dir_touched := T\<rparr>) = fuel_dir rg"
  by (simp add: fuel_dir_def)

lemma dframe_upd [simp]:
  "dframe rg0 (rg\<lparr>dir_touched := T\<rparr>) = dframe rg0 rg"
  "dframe rg0 (rg\<lparr>dir_stack := st\<rparr>) = dframe rg0 rg"
  "dframe rg0 (rg\<lparr>dir_iterations := n\<rparr>) = dframe rg0 rg"
  "dframe rg0 (rg\<lparr>dir_currentRegion := c\<rparr>) = dframe rg0 rg"
  "dframe rg0 (rg\<lparr>dir_passedBy := pb\<rparr>) = dframe rg0 rg"
  by (simp_all add: dframe_def)

lemma visit_dir_rule:
  assumes g: "growing_dir (sc_rg st)" and fr: "dframe rg0 (sc_rg st)"
    and r: "r = dir_currentRegion (sc_rg st)"
    and p: "dinside (sc_rg st) (x0, y0)" and n: "dinside (sc_rg st) (x, y)"
  shows "growing_dir (sc_rg (visit_dir r x0 y0 st (x, y))) \<and>
         dframe rg0 (sc_rg (visit_dir r x0 y0 st (x, y))) \<and>
         dir_currentRegion (sc_rg (visit_dir r x0 y0 st (x, y))) = dir_currentRegion (sc_rg st) \<and>
         dir_iterations (sc_rg (visit_dir r x0 y0 st (x, y))) = dir_iterations (sc_rg st) \<and>
         fuel_dir (sc_rg (visit_dir r x0 y0 st (x, y))) \<le> fuel_dir (sc_rg st)"
proof -
  let ?rg = "sc_rg st"
  let ?v = "sc_rg (visit_dir r x0 y0 st (x, y))"
  from visit_dir_effect[OF r, of x0 y0 x y] obtain N where
    N: "set N \<subseteq> {(x0, y0), (x, y)}"
    and v: "?v = ?rg\<lparr>dir_touched := N @ dir_touched ?rg\<rparr> \<or>
      (dlabel ?rg (x, y) = 0 \<and> ?v = (admit_dir (x, y) ?rg)\<lparr>dir_touched := N @ dir_touched ?rg\<rparr>)"
    by blast
  have Nin: "list_all (dinside ?rg) N" using N p n by (auto simp: list_all_iff)
  from v show ?thesis
  proof
    assume e: "?v = ?rg\<lparr>dir_touched := N @ dir_touched ?rg\<rparr>"
    show ?thesis unfolding e using growing_dir_touched_app[OF g Nin] fr by simp
  next
    assume "dlabel ?rg (x, y) = 0 \<and> ?v = (admit_dir (x, y) ?rg)\<lparr>dir_touched := N @ dir_touched ?rg\<rparr>"
    then have l0: "dlabel ?rg (x, y) = 0"
      and e: "?v = (admit_dir (x, y) ?rg)\<lparr>dir_touched := N @ dir_touched ?rg\<rparr>" by simp_all
    let ?a = "admit_dir (x, y) ?rg"
    from admit_dir_growing[OF g n l0] have ga: "growing_dir ?a" and fa: "Suc (fuel_dir ?a) = fuel_dir ?rg"
      by simp_all
    have ia: "dinside ?a = dinside ?rg" "dir_touched ?a = dir_touched ?rg"
      "dir_currentRegion ?a = dir_currentRegion ?rg" "dir_iterations ?a = dir_iterations ?rg"
      "dframe rg0 ?a = dframe rg0 ?rg"
      by (simp_all add: admit_dir_def)
    have "growing_dir (?a\<lparr>dir_touched := N @ dir_touched ?a\<rparr>)"
      using growing_dir_touched_app[OF ga, of N] Nin by (simp add: ia)
    then show ?thesis unfolding e using fa fr by (simp add: ia)
  qed
qed

lemma scan_dir_rule:
  "growing_dir (sc_rg st) \<Longrightarrow> dframe rg0 (sc_rg st) \<Longrightarrow> r = dir_currentRegion (sc_rg st) \<Longrightarrow>
   dinside (sc_rg st) (x0, y0) \<Longrightarrow> list_all (dinside (sc_rg st)) ns \<Longrightarrow>
   growing_dir (sc_rg (foldl (visit_dir r x0 y0) st ns)) \<and>
   dframe rg0 (sc_rg (foldl (visit_dir r x0 y0) st ns)) \<and>
   dir_currentRegion (sc_rg (foldl (visit_dir r x0 y0) st ns)) = dir_currentRegion (sc_rg st) \<and>
   dir_iterations (sc_rg (foldl (visit_dir r x0 y0) st ns)) = dir_iterations (sc_rg st) \<and>
   fuel_dir (sc_rg (foldl (visit_dir r x0 y0) st ns)) \<le> fuel_dir (sc_rg st)"
proof (induction ns arbitrary: st)
  case Nil
  then show ?case by simp
next
  case (Cons n ns)
  obtain x y where n: "n = (x, y)" by (cases n)
  let ?v = "visit_dir r x0 y0 st (x, y)"
  from Cons.prems(5) have nin: "dinside (sc_rg st) (x, y)" by (simp add: n)
  from visit_dir_rule[OF Cons.prems(1,2,3,4) nin]
  have v: "growing_dir (sc_rg ?v)" "dframe rg0 (sc_rg ?v)"
    "dir_currentRegion (sc_rg ?v) = dir_currentRegion (sc_rg st)"
    "dir_iterations (sc_rg ?v) = dir_iterations (sc_rg st)"
    "fuel_dir (sc_rg ?v) \<le> fuel_dir (sc_rg st)" by simp_all
  from Cons.prems(2) v(2) have same: "dinside (sc_rg ?v) = dinside (sc_rg st)"
    by (simp add: dframe_def dinside_def boundaries_dir_def fun_eq_iff)
  have "r = dir_currentRegion (sc_rg ?v)" using Cons.prems(3) v(3) by simp
  from Cons.IH[OF v(1,2) this] Cons.prems(4,5) same v(3,4,5) show ?case by (simp add: n)
qed

lemma getNeighbour_inside: "list_all (dinside rg) (getNeighbour rg x0 y0)"
  by (auto simp: getNeighbour_def list_all_iff dinside_def)

lemma BFS_dir_rule:
  assumes g: "growing_dir rg" and fr: "dframe rg0 rg"
    and p: "dinside rg (x, y)" "dlabel rg (x, y) = dir_currentRegion rg"
  shows "growing_dir (BFS_dir rg x y) \<and> dframe rg0 (BFS_dir rg x y) \<and>
         dir_currentRegion (BFS_dir rg x y) = dir_currentRegion rg \<and>
         dir_iterations (BFS_dir rg x y) = dir_iterations rg \<and>
         fuel_dir (BFS_dir rg x y) \<le> fuel_dir rg"
proof -
  let ?i = "BFS_init rg x y"
  have i: "sc_rg ?i = rg\<lparr>dir_touched := [(x, y), (x, y)] @ dir_touched rg\<rparr>"
    by (simp add: BFS_init_def Let_def dtouch_def)
  have gi: "growing_dir (sc_rg ?i)" unfolding i
    using growing_dir_touched_app[OF g, of "[(x, y), (x, y)]"] p(1) by simp
  have fi: "dframe rg0 (sc_rg ?i)" using fr by (simp add: i)
  have ri: "mat_at (dir_passedBy rg) x y = dir_currentRegion (sc_rg ?i)"
    using p(2) by (simp add: i dlabel_def)
  have pi: "dinside (sc_rg ?i) (x, y)" using p(1) by (simp add: i)
  have ni: "list_all (dinside (sc_rg ?i)) (getNeighbour rg x y)"
    using getNeighbour_inside[of rg x y] by (simp add: i)
  from scan_dir_rule[OF gi fi ri pi ni] show ?thesis
    by (simp add: BFS_dir_def BFS_scan_def Let_def) (simp add: i)
qed

lemma growing_dir_iterations [simp]:
  "growing_dir (rg\<lparr>dir_iterations := n\<rparr>) = growing_dir rg"
  "fuel_dir (rg\<lparr>dir_iterations := n\<rparr>) = fuel_dir rg"
  by (simp_all add: growing_dir_def dgrid_ok_def fuel_dir_def)

lemma drain_iter_rule:
  assumes g: "growing_dir rg" and fr: "dframe rg0 rg" and ne: "dir_stack rg \<noteq> []"
  shows "growing_dir (drain_iter rg) \<and> dframe rg0 (drain_iter rg) \<and>
         dir_currentRegion (drain_iter rg) = dir_currentRegion rg \<and>
         fuel_dir (drain_iter rg) < fuel_dir rg"
proof -
  obtain x y where top: "last (dir_stack rg) = (x, y)" by (cases "last (dir_stack rg)")
  let ?rg1 = "rg\<lparr>dir_stack := butlast (dir_stack rg)\<rparr>"
  from g have all: "list_all (\<lambda>p. dinside rg p \<and> dlabel rg p = dir_currentRegion rg) (dir_stack rg)"
    by (simp add: growing_dir_def)
  have t: "dinside rg (x, y) \<and> dlabel rg (x, y) = dir_currentRegion rg"
    using all ne top by (auto simp: list_all_iff dest: last_in_set)
  have rest: "list_all (\<lambda>p. dinside rg p \<and> dlabel rg p = dir_currentRegion rg) (butlast (dir_stack rg))"
    using all by (auto simp: list_all_iff dest: in_set_butlastD)
  have g1: "growing_dir ?rg1" using g rest by (simp add: growing_dir_def dgrid_ok_def)
  have f1: "Suc (fuel_dir ?rg1) = fuel_dir rg" using ne by (simp add: fuel_dir_def)
  have fr1: "dframe rg0 ?rg1" using fr by simp
  have t1: "dinside ?rg1 (x, y)" "dlabel ?rg1 (x, y) = dir_currentRegion ?rg1" using t by simp_all
  let ?b = "BFS_dir ?rg1 x y"
  have e: "drain_iter rg = ?b\<lparr>dir_iterations := dir_iterations ?b + 1\<rparr>"
    by (simp add: drain_iter_def pop_dir_def top Let_def)
  from BFS_dir_rule[OF g1 fr1 t1] f1 show ?thesis
    unfolding e by (simp add: growing_dir_iterations)
qed

lemma drain_rule:
  "growing_dir rg \<Longrightarrow> dframe rg0 rg \<Longrightarrow>
   \<exists>rg'. drain rg = Some rg' \<and> growing_dir rg' \<and> dframe rg0 rg' \<and> dir_stack rg' = [] \<and>
         dir_currentRegion rg' = dir_currentRegion rg"
proof (induction "fuel_dir rg" arbitrary: rg rule: less_induct)
  case less
  show ?case
  proof (cases "dir_stack rg = []")
    case True
    with less.prems show ?thesis by (subst drain.simps) simp
  next
    case False
    from drain_iter_rule[OF less.prems False]
    have d: "growing_dir (drain_iter rg)" "dframe rg0 (drain_iter rg)"
      "dir_currentRegion (drain_iter rg) = dir_currentRegion rg"
      "fuel_dir (drain_iter rg) < fuel_dir rg" by simp_all
    from less.hyps[OF d(4) d(1,2)] d(3) False show ?thesis
      by (subst drain.simps) simp
  qed
qed

lemma rest_dir_final: "rest_dir rg \<Longrightarrow> final_dir rg"
  by (auto simp: rest_dir_def final_dir_def)

lemma seed_start_eq:
  "seed_start (dtouch x0 y0 rg) x0 y0 =
     (admit_dir (x0, y0) (rg\<lparr>dir_currentRegion := dir_currentRegion rg + 1\<rparr>))
       \<lparr>dir_touched := [(x0, y0), (x0, y0), (x0, y0)] @ dir_touched rg\<rparr>"
  by (simp add: seed_start_def Let_def dtouch_def admit_dir_def push_dir_def)

lemma seed_start_growing:
  assumes r: "rest_dir rg" and c: "dinside rg c" "dlabel rg c = 0"
  shows "growing_dir (seed_start (dtouch (fst c) (snd c) rg) (fst c) (snd c)) \<and>
         dir_currentRegion (seed_start (dtouch (fst c) (snd c) rg) (fst c) (snd c)) = dir_currentRegion rg + 1 \<and>
         dframe rg (seed_start (dtouch (fst c) (snd c) rg) (fst c) (snd c))"
proof -
  let ?k = "dir_currentRegion rg + 1"
  let ?pb = "dir_passedBy rg"
  let ?xs = "mat_data ?pb"
  let ?m = "nat (fst c * mat_cols ?pb + snd c)"
  let ?s = "seed_start (dtouch (fst c) (snd c) rg) (fst c) (snd c)"
  from r have grid: "dgrid_ok rg" and st: "dir_stack rg = []"
    and tch: "list_all (dinside rg) (dir_touched rg)" and c0: "0 \<le> dir_currentRegion rg"
    and range: "\<forall>v\<in>set ?xs. 0 \<le> v \<and> v \<le> dir_currentRegion rg"
    and big: "\<forall>j. 1 \<le> j \<and> j \<le> dir_currentRegion rg \<longrightarrow> 64 \<le> region_size rg j"
    by (simp_all add: rest_dir_def)
  have m: "?m < length ?xs" using dcell_less[OF grid c(1)] .
  have m0: "?xs ! ?m = 0" using c(2) by (simp add: dlabel_def mat_at_def)
  have e: "?s = rg\<lparr>dir_currentRegion := ?k,
      dir_passedBy := ?pb\<lparr>mat_data := ?xs[?m := ?k]\<rparr>, dir_stack := [c],
      dir_touched := [c, c, c] @ dir_touched rg\<rparr>"
    using st by (simp add: seed_start_def Let_def dtouch_def push_dir_def mat_set_def)
  have none: "length (filter (\<lambda>v. v = ?k) ?xs) = 0"
    using range by (auto simp: filter_empty_conv)
  have sz_k: "region_size ?s ?k = 1"
    using filter_update_gain[of ?m ?xs "\<lambda>v. v = ?k" ?k] m m0 c0 none
    by (simp add: e region_size_def countNonZero_def)
  have sz_other: "region_size ?s j = region_size rg j" if "1 \<le> j" "j < ?k" for j
    using that m0 filter_update_other[of "\<lambda>v. v = j" ?xs ?m ?k]
    by (simp add: e region_size_def countNonZero_def)
  have g1: "dgrid_ok ?s" using grid by (simp add: dgrid_ok_def e)
  have ins: "dinside ?s = dinside rg" by (simp add: e)
  have lab: "dlabel ?s c = ?k" using m by (simp add: e dlabel_def mat_at_def)
  have g4: "\<forall>v\<in>set (mat_data (dir_passedBy ?s)). 0 \<le> v \<and> v \<le> ?k"
    using range c0 set_update_subset_insert[of ?xs ?m ?k] by (fastforce simp: e)
  have g5: "\<forall>j. 1 \<le> j \<and> j < ?k \<longrightarrow> 64 \<le> region_size ?s j"
    using big sz_other by simp
  have cur: "dir_currentRegion ?s = ?k" "dir_stack ?s = [c]" "dir_touched ?s = [c, c, c] @ dir_touched rg"
    by (simp_all add: e)
  have "growing_dir ?s"
    unfolding growing_dir_def cur ins using g1 c0 c(1) lab tch g4 g5 sz_k by simp
  moreover have "dframe rg ?s" by (simp add: e dframe_def)
  ultimately show ?thesis using cur(1) by simp
qed

lemma filter_reset:
  "j \<noteq> c \<Longrightarrow> j \<noteq> 0 \<Longrightarrow>
   length (filter (\<lambda>v. v = j) (map (\<lambda>v. if v = c then 0 else v) xs)) =
   length (filter (\<lambda>v. v = j) (xs :: int list))"
  by (induction xs) auto

lemma reset_region_rule:
  assumes g: "growing_dir rg" and st: "dir_stack rg = []"
  shows "rest_dir (fst (reset_region rg x0 y0)) \<and>
         dir_currentRegion (fst (reset_region rg x0 y0)) = dir_currentRegion rg - 1 \<and>
         region_size (fst (reset_region rg x0 y0)) (dir_currentRegion rg) = 0 \<and>
         snd (reset_region rg x0 y0) = (x0 - 1, y0 - 1) \<and>
         dframe rg (fst (reset_region rg x0 y0))"
proof -
  let ?c = "dir_currentRegion rg"
  let ?xs = "mat_data (dir_passedBy rg)"
  let ?r = "fst (reset_region rg x0 y0)"
  have e: "?r = rg\<lparr>dir_passedBy := (dir_passedBy rg)\<lparr>mat_data := map (\<lambda>v. if v = ?c then 0 else v) ?xs\<rparr>,
      dir_currentRegion := ?c - 1\<rparr>"
    by (simp add: reset_region_def Let_def)
  from g have grid: "dgrid_ok rg" and c: "1 \<le> ?c"
    and tch: "list_all (dinside rg) (dir_touched rg)"
    and range: "\<forall>v\<in>set ?xs. 0 \<le> v \<and> v \<le> ?c"
    and big: "\<forall>j. 1 \<le> j \<and> j < ?c \<longrightarrow> 64 \<le> region_size rg j"
    by (simp_all add: growing_dir_def)
  have r1: "dgrid_ok ?r" using grid by (simp add: e dgrid_ok_def)
  have r2: "\<forall>v\<in>set (mat_data (dir_passedBy ?r)). 0 \<le> v \<and> v \<le> ?c - 1"
    using range c by (fastforce simp: e)
  have r3: "\<forall>j. 1 \<le> j \<and> j \<le> ?c - 1 \<longrightarrow> 64 \<le> region_size ?r j"
    using big filter_reset[of _ ?c ?xs] by (simp add: e region_size_def countNonZero_def)
  have r4: "region_size ?r ?c = 0" using c by (simp add: e region_size_def countNonZero_def filter_empty_conv)
  have "rest_dir ?r" unfolding rest_dir_def using r1 r2 r3 c st tch by (simp add: e)
  moreover have "dframe rg ?r" by (simp add: e dframe_def)
  ultimately show ?thesis using r4 by (simp add: e) (simp add: reset_region_def Let_def)
qed

lemma dframe_trans: "dframe a b \<Longrightarrow> dframe b c \<Longrightarrow> dframe a c"
  by (simp add: dframe_def)

lemma dframe_inside: "dframe a b \<Longrightarrow> dinside b = dinside a"
  by (simp add: dframe_def dinside_def boundaries_dir_def fun_eq_iff)

lemma seed_grown_rule:
  assumes g: "growing_dir rg4" and st: "dir_stack rg4 = []"
  shows "\<exists>rg' xy brk. seed_grown x0 y0 (Some rg4) = Some (rg', xy, brk) \<and>
     (if brk then final_dir rg' else rest_dir rg') \<and> dframe rg4 rg'"
proof (cases "PassedAll rg4 200000")
  case True
  have "final_dir rg4" using g True by (auto simp: final_dir_def growing_dir_def)
  with True show ?thesis by (auto simp add: dframe_def)
next
  case False
  show ?thesis
  proof (cases "region_size rg4 (dir_currentRegion rg4) < 64")
    case True
    obtain rg5 nx ny where rr: "reset_region rg4 x0 y0 = (rg5, (nx, ny))"
      by (cases "reset_region rg4 x0 y0") auto
    from reset_region_rule[OF g st, of x0 y0] rr have "rest_dir rg5" "dframe rg4 rg5" by simp_all
    with False True rr show ?thesis by (auto simp add: region_size_def Let_def)
  next
    case big: False
    have "rest_dir rg4" using g st big
      by (auto simp: rest_dir_def growing_dir_def) (metis less_le not_less)
    with False big show ?thesis by (auto simp add: region_size_def Let_def dframe_def)
  qed
qed

lemma seed_body_rule:
  assumes r: "rest_dir rg" and i: "dinside rg i"
  shows "\<exists>rg' xy brk. seed_body rg i = Some (rg', xy, brk) \<and>
     (if brk then final_dir rg' else rest_dir rg') \<and> dframe rg rg'"
proof (cases "dlabel rg i = 0 \<and> norm3 (mat_at (dir_im rg) (fst i) (snd i)) > 0")
  case True
  let ?s = "seed_start (dtouch (fst i) (snd i) rg) (fst i) (snd i)"
  from True have c: "mat_at (dir_passedBy (dtouch (fst i) (snd i) rg)) (fst i) (snd i) = 0 \<and>
      norm3 (mat_at (dir_im (dtouch (fst i) (snd i) rg)) (fst i) (snd i)) > 0"
    by (simp add: dtouch_def dlabel_def)
  from seed_start_growing[OF r i] True have s: "growing_dir ?s" "dframe rg ?s" by simp_all
  from drain_rule[OF s] obtain rg4 where d: "drain ?s = Some rg4" "growing_dir rg4"
    "dframe rg rg4" "dir_stack rg4 = []" by blast
  from seed_grown_rule[OF d(2,4), of "fst i" "snd i"] obtain rg' xy brk where
    "seed_grown (fst i) (snd i) (Some rg4) = Some (rg', xy, brk)"
    "if brk then final_dir rg' else rest_dir rg'" "dframe rg4 rg'" by blast
  with d(1,3) c show ?thesis
    using dframe_trans[of rg rg4 rg'] by (simp add: seed_body_def Let_def)
next
  case False
  let ?t = "dtouch (fst i) (snd i) rg"
  from False have c: "\<not> (mat_at (dir_passedBy ?t) (fst i) (snd i) = 0 \<and>
      norm3 (mat_at (dir_im ?t) (fst i) (snd i)) > 0)"
    by (simp add: dtouch_def dlabel_def)
  have "rest_dir ?t" "rest_dir (dtouch (fst i) (snd i) ?t)" "dframe rg ?t" "dframe rg (dtouch (fst i) (snd i) ?t)"
    using r i by (simp_all add: rest_dir_def dgrid_ok_def dtouch_def dframe_def)
  with c show ?thesis by (auto simp add: seed_body_def Let_def)
qed

lemma seeds_loop_rule:
  "rest_dir rg \<Longrightarrow> list_all (dinside rg) seeds \<Longrightarrow> dframe rg0 rg \<Longrightarrow>
   \<exists>rg'. seeds_loop rg seeds = Some rg' \<and> final_dir rg' \<and> dframe rg0 rg'"
proof (induction seeds arbitrary: rg)
  case Nil
  then show ?case by (simp add: rest_dir_final)
next
  case (Cons i seeds)
  from Cons.prems(2) have i: "dinside rg i" by simp
  from seed_body_rule[OF Cons.prems(1) i] obtain rg' xy brk where
    b: "seed_body rg i = Some (rg', xy, brk)" "if brk then final_dir rg' else rest_dir rg'"
    "dframe rg rg'" by blast
  have fr: "dframe rg0 rg'" using Cons.prems(3) b(3) by (rule dframe_trans)
  show ?case
  proof (cases brk)
    case True
    with b fr show ?thesis by simp
  next
    case False
    with b(2) have r: "rest_dir rg'" by simp
    have "list_all (dinside rg') seeds" using Cons.prems(2) dframe_inside[OF b(3)] by simp
    from Cons.IH[OF r this fr] b(1) False show ?thesis by simp
  qed
qed

lemma rest_dir_new:
  assumes "valid_image img"
  shows "rest_dir (RegionGrow_new img th)"
  using assms
  by (simp add: rest_dir_def dgrid_ok_def RegionGrow_new_def readImage_def zeros_def Let_def
      valid_image_def region_size_def)

lemma expand_seeds_inside:
  assumes "list_all (dinside rg) seeds"
  shows "list_all (dinside rg) (expand_seeds rg seeds)"
  using assms getNeighbour_inside[of rg]
  by (induction seeds) (simp_all add: expand_seeds_def)

lemma ApplyRegionGrow_dir_final:
  assumes "valid_image img" "valid_seeds img seeds"
  shows "\<exists>rg'. ApplyRegionGrow_dir (RegionGrow_new img th) seeds = Some rg' \<and> final_dir rg' \<and>
     dframe (RegionGrow_new img th) rg'"
proof -
  let ?rg = "RegionGrow_new img th"
  have "list_all (dinside ?rg) seeds"
    using assms(2)
    by (simp add: valid_seeds_def dinside_def boundaries_dir_def RegionGrow_new_def readImage_def Let_def
        list_all_iff)
  then have "list_all (dinside ?rg) (expand_seeds ?rg seeds)" by (rule expand_seeds_inside)
  from seeds_loop_rule[OF rest_dir_new[OF assms(1)] this, of ?rg] show ?thesis
    by (simp add: ApplyRegionGrow_dir_def dframe_def)
qed


lemma ex_island3_run:
  "expand_seeds (RegionGrow_new ex_island3 5) [(2, 2)] = [(2, 2), (1, 1), (1, 2), (2, 1)] \<and>
   map_option (\<lambda>r. (mat_data (dir_passedBy r), dir_currentRegion r))
     (ApplyRegionGrow_dir (RegionGrow_new ex_island3 5) [(2, 2)]) = Some (replicate 9 0, 0)"
  by code_simp

lemma ex_island3_shifted:
  "map_option (\<lambda>r. map_option (\<lambda>r'. (mat_data (dir_passedBy r'), dir_currentRegion r'))
       (seeds_loop r [(0, 0)]))
     (ApplyRegionGrow_dir (RegionGrow_new ex_island3 5) [(2, 2)]) = Some (Some (replicate 9 1, 1))"
  by code_simp

subsection \<open>The size of the regions in the final label map\<close>






subsection \<open>The seed after a reclaimed region\<close>

text \<open>
  C3: \<open>reset_region\<close> returns the seed shifted by \<open>(-1, -1)\<close> and the body stores it in
  its locals \<open>x0\<close> and \<open>y0\<close>, but the loop takes its next seed from the list. On the
  3 by 3 image whose lower right 2 by 2 block is darker, with threshold 5 and the seed
  \<open>(2, 2)\<close>, the list is \<open>(2, 2), (1, 1), (1, 2), (2, 1)\<close>: each of the four seeds grows
  the block of 4 pixels, which is reclaimed, and the run returns a label map of zeros with
  the counter at 0. The seed \<open>(1, 1)\<close> shifted is \<open>(0, 0)\<close>, which is never a seed;
  growing from \<open>(0, 0)\<close> on the returned object labels all 9 pixels.
\<close>

theorem shifted_seed_not_processed:
  "expand_seeds (RegionGrow_new ex_island3 5) [(2, 2)] = [(2, 2), (1, 1), (1, 2), (2, 1)] \<and>
   map_option (\<lambda>r. (mat_data (dir_passedBy r), dir_currentRegion r))
     (ApplyRegionGrow_dir (RegionGrow_new ex_island3 5) [(2, 2)]) = Some (replicate 9 0, 0) \<and>
   map_option (\<lambda>r. map_option (\<lambda>r'. (mat_data (dir_passedBy r'), dir_currentRegion r'))
       (seeds_loop r [(0, 0)]))
     (ApplyRegionGrow_dir (RegionGrow_new ex_island3 5) [(2, 2)]) = Some (Some (replicate 9 1, 1))"
  using ex_island3_run ex_island3_shifted by simp

subsection \<open>The region ids in the final label map\<close>

lemma labels_exact:
  assumes range: "\<forall>v\<in>set xs. 0 \<le> v \<and> v \<le> c"
    and all: "\<forall>j. 1 \<le> j \<and> j \<le> c \<longrightarrow> j \<in> set xs"
  shows "set xs - {0} = {1..c::int}"
  using assms by force

lemma positive_size_member:
  "1 \<le> region_size rg j \<Longrightarrow> j \<in> set (mat_data (dir_passedBy rg))"
proof -
  assume "1 \<le> region_size rg j"
  then have "filter (\<lambda>v. v = j) (mat_data (dir_passedBy rg)) \<noteq> []"
    by (auto simp: region_size_def countNonZero_def)
  then show ?thesis by (auto simp: filter_empty_conv)
qed

text \<open>
  C8: in the label map the exhaustive pass returns, and in the one the adaptive program
  returns for seeds inside the image, the labels other than 0 are exactly the ids from 1
  to the counter. \<open>reset_region\<close> decrements the counter, so the next region started
  (\<open>seed_start\<close>) gets the id of the region just reclaimed.
\<close>

theorem region_ids_without_gaps:
  assumes "valid_image img" "valid_seeds img seeds"
  shows "(\<exists>rg'. ApplyRegionGrow (initRegionGrow img th) = Some rg' \<and>
       set (rg_passedBy rg') - {0} = {1..rg_currentRegion rg'}) \<and>
     (\<exists>rg'. ApplyRegionGrow_dir (RegionGrow_new img th) seeds = Some rg' \<and>
       set (mat_data (dir_passedBy rg')) - {0} = {1..dir_currentRegion rg'}) \<and>
     dir_currentRegion (fst (reset_region rg x0 y0)) = dir_currentRegion rg - 1 \<and>
     dir_currentRegion (seed_start (dtouch x y (fst (reset_region rg x0 y0))) x y) = dir_currentRegion rg"
proof -
  from ApplyRegionGrow_pass[OF assms(1), of th] obtain rf where
    f: "ApplyRegionGrow (initRegionGrow img th) = Some rf"
    "pass_inv (initRegionGrow img th) (nat (mat_rows img * mat_cols img)) rf" by blast
  from f(2) have "set (rg_passedBy rf) - {0} = {1..rg_currentRegion rf}"
    by (intro labels_exact) (simp_all add: pass_inv_def)
  with f(1) have A: "\<exists>rg'. ApplyRegionGrow (initRegionGrow img th) = Some rg' \<and>
       set (rg_passedBy rg') - {0} = {1..rg_currentRegion rg'}" by blast
  from ApplyRegionGrow_dir_final[OF assms, of th] obtain rd where
    d: "ApplyRegionGrow_dir (RegionGrow_new img th) seeds = Some rd" "final_dir rd" by blast
  have range: "\<forall>v\<in>set (mat_data (dir_passedBy rd)). 0 \<le> v \<and> v \<le> dir_currentRegion rd"
    using d(2) by (simp add: final_dir_def)
  have all: "\<forall>j. 1 \<le> j \<and> j \<le> dir_currentRegion rd \<longrightarrow> j \<in> set (mat_data (dir_passedBy rd))"
  proof (intro allI impI)
    fix j assume j: "1 \<le> j \<and> j \<le> dir_currentRegion rd"
    have "1 \<le> region_size rd j"
    proof (cases "j < dir_currentRegion rd")
      case True
      with j d(2) have "64 \<le> region_size rd j" by (simp add: final_dir_def)
      then show ?thesis by simp
    next
      case False
      with j have "j = dir_currentRegion rd" by simp
      with j d(2) show ?thesis by (simp add: final_dir_def)
    qed
    then show "j \<in> set (mat_data (dir_passedBy rd))" by (rule positive_size_member)
  qed
  from labels_exact[OF range all] d(1)
  have B: "\<exists>rg'. ApplyRegionGrow_dir (RegionGrow_new img th) seeds = Some rg' \<and>
       set (mat_data (dir_passedBy rg')) - {0} = {1..dir_currentRegion rg'}" by blast
  have C: "dir_currentRegion (fst (reset_region rg x0 y0)) = dir_currentRegion rg - 1"
    "dir_currentRegion (seed_start (dtouch x y (fst (reset_region rg x0 y0))) x y) = dir_currentRegion rg"
    by (simp_all add: reset_region_def seed_start_def Let_def dtouch_def)
  from A B C show ?thesis by blast
qed

lemma ex_flat3_valid: "valid_image ex_flat3 \<and> valid_seeds ex_flat3 [(0, 0)]"
  by (simp add: valid_image_def valid_seeds_def ex_flat3_def)

theorem region_ids_without_gaps_witness:
  "valid_image ex_flat3 \<and> valid_seeds ex_flat3 [(0, 0)] \<and>
   (\<exists>rg'. ApplyRegionGrow (initRegionGrow ex_flat3 10) = Some rg' \<and>
       set (rg_passedBy rg') - {0} = {1..rg_currentRegion rg'}) \<and>
   (\<exists>rg'. ApplyRegionGrow_dir (RegionGrow_new ex_flat3 10) [(0, 0)] = Some rg' \<and>
       set (mat_data (dir_passedBy rg')) - {0} = {1..dir_currentRegion rg'})"
  using region_ids_without_gaps[OF ex_flat3_valid[THEN conjunct1] ex_flat3_valid[THEN conjunct2], of 10]
    ex_flat3_valid by blast

subsection \<open>Accesses stay inside the image\<close>

text \<open>
  C9, as the program has it: the boundary predicate is applied to every generated
  neighbour, but the adaptive program reads the label map and the image at each seed, and
  labels it, without a check. On a decoded image the exhaustive pass returns, and so does
  the adaptive program when every seed is inside the image, and every coordinate at which
  they have read or written the image or the label map (the history of the returned
  object) satisfies the boundary predicate; the neighbours \<open>getNeighbour\<close> generates
  all satisfy it.
\<close>

theorem boundary_exclusion:
  assumes "valid_image img" "valid_seeds img seeds"
  shows "(\<exists>rg'. ApplyRegionGrow (initRegionGrow img th) = Some rg' \<and>
       rg_h rg' = mat_rows img \<and> rg_w rg' = mat_cols img \<and>
       list_all (\<lambda>p. boundaries rg' (fst p) (snd p)) (rg_touched rg')) \<and>
     (\<exists>rg'. ApplyRegionGrow_dir (RegionGrow_new img th) seeds = Some rg' \<and>
       dir_h rg' = mat_rows img \<and> dir_w rg' = mat_cols img \<and>
       list_all (\<lambda>p. boundaries_dir rg' (fst p) (snd p)) (dir_touched rg')) \<and>
     list_all (\<lambda>p. boundaries_dir rg (fst p) (snd p)) (getNeighbour rg x0 y0)"
proof -
  from ApplyRegionGrow_pass[OF assms(1), of th] obtain rf where
    f: "ApplyRegionGrow (initRegionGrow img th) = Some rf"
    "pass_inv (initRegionGrow img th) (nat (mat_rows img * mat_cols img)) rf" by blast
  from f(2) have "rg_h rf = mat_rows img" "rg_w rf = mat_cols img"
    "list_all (\<lambda>p. boundaries rf (fst p) (snd p)) (rg_touched rf)"
    by (simp_all add: pass_inv_def initRegionGrow_def inside_def[abs_def])
  with f(1) have A: "\<exists>rg'. ApplyRegionGrow (initRegionGrow img th) = Some rg' \<and>
       rg_h rg' = mat_rows img \<and> rg_w rg' = mat_cols img \<and>
       list_all (\<lambda>p. boundaries rg' (fst p) (snd p)) (rg_touched rg')" by blast
  from ApplyRegionGrow_dir_final[OF assms, of th] obtain rd where
    d: "ApplyRegionGrow_dir (RegionGrow_new img th) seeds = Some rd" "final_dir rd"
    "dframe (RegionGrow_new img th) rd" by blast
  from d(2,3) have "dir_h rd = mat_rows img" "dir_w rd = mat_cols img"
    "list_all (\<lambda>p. boundaries_dir rd (fst p) (snd p)) (dir_touched rd)"
    by (simp_all add: final_dir_def dframe_def RegionGrow_new_def readImage_def Let_def dinside_def[abs_def])
  with d(1) have B: "\<exists>rg'. ApplyRegionGrow_dir (RegionGrow_new img th) seeds = Some rg' \<and>
       dir_h rg' = mat_rows img \<and> dir_w rg' = mat_cols img \<and>
       list_all (\<lambda>p. boundaries_dir rg' (fst p) (snd p)) (dir_touched rg')" by blast
  have C: "list_all (\<lambda>p. boundaries_dir rg (fst p) (snd p)) (getNeighbour rg x0 y0)"
    using getNeighbour_inside[of rg x0 y0] by (simp add: dinside_def[abs_def])
  from A B C show ?thesis by blast
qed

lemma ex_grey3_valid: "valid_image ex_grey3 \<and> valid_seeds ex_grey3 [(0, 1)]"
  by (simp add: valid_image_def valid_seeds_def ex_grey3_def)

theorem boundary_exclusion_witness:
  "valid_image ex_grey3 \<and> valid_seeds ex_grey3 [(0, 1)] \<and>
   (\<exists>rg'. ApplyRegionGrow (initRegionGrow ex_grey3 10) = Some rg' \<and>
       list_all (\<lambda>p. boundaries rg' (fst p) (snd p)) (rg_touched rg')) \<and>
   (\<exists>rg'. ApplyRegionGrow_dir (RegionGrow_new ex_grey3 10) [(0, 1)] = Some rg' \<and>
       list_all (\<lambda>p. boundaries_dir rg' (fst p) (snd p)) (dir_touched rg'))"
  using boundary_exclusion[OF ex_grey3_valid[THEN conjunct1] ex_grey3_valid[THEN conjunct2], of 10]
    ex_grey3_valid by blast

text \<open>
  The claim as the spec states it (no access outside the image in any run) fails for the
  adaptive program on the row of three equal pixels with threshold 10 and the seed
  \<open>(0, -1)\<close>: the seed list becomes \<open>(0, -1), (0, 0)\<close>, and the first access of the run,
  the oldest entry of the history, is the read of the label map at \<open>(0, -1)\<close>, which the
  boundary predicate rejects.
\<close>

theorem seed_outside_counterexample:
  "expand_seeds (RegionGrow_new ex_flat3 10) [(0, -1)] = [(0, -1), (0, 0)] \<and>
   \<not> boundaries_dir (RegionGrow_new ex_flat3 10) 0 (-1) \<and>
   map_option (\<lambda>r. (dir_h r, dir_w r, last (dir_touched r)))
     (ApplyRegionGrow_dir (RegionGrow_new ex_flat3 10) [(0, -1)]) = Some (1, 3, (0, -1)) \<and>
   map_option (\<lambda>r. list_all (\<lambda>p. boundaries_dir r (fst p) (snd p)) (dir_touched r))
     (ApplyRegionGrow_dir (RegionGrow_new ex_flat3 10) [(0, -1)]) = Some False"
  by code_simp

end
